theory Spec2Isabelle
  imports Complex_Main
begin

section \<open>Objective values and their comparisons\<close>

text \<open>
  Decision variables are numpy floats that the algorithms add, scale and clip; they are
  modelled as reals (no rounding). Objective values are produced by the problem's
  evaluation and are only ever compared, so they are modelled with the non-finite values
  a float can hold and with the comparisons of IEEE 754: every comparison with NaN is
  false.
\<close>

datatype fval = Finite real | PosInf | NegInf | NaN

text \<open>The numpy comparison \<^verbatim>\<open>x <= y\<close> on two floats.\<close>

fun fle :: "fval \<Rightarrow> fval \<Rightarrow> bool" where
  "fle (Finite x) (Finite y) = (x \<le> y)"
| "fle NaN y = False"
| "fle x NaN = False"
| "fle NegInf y = True"
| "fle x PosInf = True"
| "fle x y = False"

text \<open>The numpy comparison \<^verbatim>\<open>x < y\<close> on two floats.\<close>

fun flt :: "fval \<Rightarrow> fval \<Rightarrow> bool" where
  "flt (Finite x) (Finite y) = (x < y)"
| "flt NaN y = False"
| "flt x NaN = False"
| "flt NegInf NegInf = False"
| "flt NegInf y = True"
| "flt PosInf PosInf = False"
| "flt x PosInf = True"
| "flt x y = False"

section \<open>Errors and the random generator\<close>

datatype error = ValueError | IndexError

text \<open>
  The notebook draws every random number from numpy's process-wide generator
  \<^verbatim>\<open>np.random\<close>. The generator is modelled as explicit state: a cursor counting the
  draws made so far, and what the generator answers at each cursor position when it is
  asked for a uniform float, for an integer below a bound, or for a permutation of
  \<^verbatim>\<open>range(n)\<close>. A call reads the answer at the cursor and moves the cursor on.
\<close>

record rng =
  uniform :: "nat \<Rightarrow> real"
  integer :: "nat \<Rightarrow> nat \<Rightarrow> nat"
  shuffle :: "nat \<Rightarrow> nat \<Rightarrow> nat list"
  cursor :: nat

text \<open>What numpy promises about its answers: floats in [0,1), integers below the
  bound, and permutations of \<^verbatim>\<open>range(n)\<close>.\<close>

definition valid_rng :: "rng \<Rightarrow> bool" where
  "valid_rng g =
     ((\<forall>t. 0 \<le> uniform g t \<and> uniform g t < 1) \<and>
      (\<forall>t n. 0 < n \<longrightarrow> integer g t n < n) \<and>
      (\<forall>t n. distinct (shuffle g t n) \<and> set (shuffle g t n) = {..<n}))"

definition advance_rng :: "nat \<Rightarrow> rng \<Rightarrow> rng" where
  "advance_rng n g = g\<lparr>cursor := cursor g + n\<rparr>"

text \<open>\<^verbatim>\<open>np.random.random()\<close>: one uniform float.\<close>

definition np_random_random :: "rng \<Rightarrow> real \<times> rng" where
  "np_random_random g = (uniform g (cursor g), advance_rng 1 g)"

text \<open>\<^verbatim>\<open>np.random.random((d0, d1, d2))\<close>: an array of uniform floats, filled in
  row-major order from consecutive draws.\<close>

definition np_random_random_shape :: "nat \<times> nat \<times> nat \<Rightarrow> rng \<Rightarrow> real list list list \<times> rng" where
  "np_random_random_shape shape g =
     (case shape of (d0, d1, d2) \<Rightarrow>
        (map (\<lambda>a. map (\<lambda>i. map (\<lambda>k. uniform g (cursor g + (a * d1 + i) * d2 + k))
                                 [0..<d2]) [0..<d1]) [0..<d0],
         advance_rng (d0 * d1 * d2) g))"

text \<open>\<^verbatim>\<open>np.random.uniform(low, high, size=(d0, d1))\<close> with \<^verbatim>\<open>low\<close> and
  \<^verbatim>\<open>high\<close> broadcast along the rows: \<^verbatim>\<open>low + (high - low) * u\<close>.\<close>

definition np_random_uniform :: "real list \<Rightarrow> real list \<Rightarrow> nat \<times> nat \<Rightarrow> rng \<Rightarrow> real list list \<times> rng" where
  "np_random_uniform low high shape g =
     (case shape of (d0, d1) \<Rightarrow>
        (map (\<lambda>i. map (\<lambda>k. low ! k + (high ! k - low ! k) * uniform g (cursor g + i * d1 + k))
                       [0..<d1]) [0..<d0],
         advance_rng (d0 * d1) g))"

text \<open>\<^verbatim>\<open>np.random.randint(n)\<close>: an integer in \<^verbatim>\<open>range(n)\<close>; numpy raises
  ValueError when \<^verbatim>\<open>n <= 0\<close>.\<close>

definition np_random_randint :: "nat \<Rightarrow> rng \<Rightarrow> error + nat \<times> rng" where
  "np_random_randint n g =
     (if n = 0 then Inl ValueError
      else Inr (integer g (cursor g) n, advance_rng 1 g))"

text \<open>\<^verbatim>\<open>np.random.choice(a, size, replace=False)\<close> on a one-dimensional array
  \<^verbatim>\<open>a\<close>: numpy raises ValueError for an empty array with a non-zero size, for a
  size above the length and for a negative size, and otherwise answers
  \<^verbatim>\<open>a[permutation(len(a))[:size]]\<close>. An integer \<^verbatim>\<open>a\<close> stands for
  \<^verbatim>\<open>arange(a)\<close>.\<close>

definition np_random_choice :: "nat list \<Rightarrow> int \<Rightarrow> rng \<Rightarrow> error + nat list \<times> rng" where
  "np_random_choice a sz g =
     (if length a = 0 \<and> sz \<noteq> 0 then Inl ValueError
      else if sz > int (length a) then Inl ValueError
      else if sz < 0 then Inl ValueError
      else Inr (map (\<lambda>p. a ! p) (take (nat sz) (shuffle g (cursor g) (length a))),
                advance_rng 1 g))"

section \<open>Problems, individuals and populations\<close>

record Individual =
  X :: "real list"
  F :: "fval list"

record Problem =
  n_var :: nat
  xl :: "real list"
  xu :: "real list"
  evaluate :: "real list \<Rightarrow> fval list"

text \<open>The notebook's \<^verbatim>\<open>ThreeDProblem\<close>.\<close>

definition ThreeDProblem :: Problem where
  "ThreeDProblem =
     \<lparr>n_var = 3, xl = [-5, -5, -5], xu = [5, 5, 5],
      evaluate = (\<lambda>x.
        [Finite (-1 * (0.5 * x ! 0 - 0.3 * x ! 1)),
         Finite (0.7 * x ! 0 + x ! 2 - 0.8 * x ! 1),
         Finite (-1 * (0.6 * x ! 2 - 0.2 * x ! 1))])\<rparr>"

text \<open>\<^verbatim>\<open>Population.new(X=X)\<close>: one fresh individual per row, not yet evaluated.\<close>

definition Population_new :: "real list list \<Rightarrow> Individual list" where
  "Population_new Xs = map (\<lambda>x. \<lparr>X = x, F = []\<rparr>) Xs"

text \<open>\<^verbatim>\<open>Population.merge(a, b)\<close>: the members of \<^verbatim>\<open>a\<close>, then those of \<^verbatim>\<open>b\<close>.\<close>

definition Population_merge :: "Individual list \<Rightarrow> Individual list \<Rightarrow> Individual list" where
  "Population_merge a b = a @ b"

text \<open>\<^verbatim>\<open>pop[indices]\<close>: numpy raises IndexError for an index out of range.\<close>

definition Population_index :: "Individual list \<Rightarrow> nat list \<Rightarrow> error + Individual list" where
  "Population_index p idx =
     (if list_all (\<lambda>i. i < length p) idx then Inr (map (\<lambda>i. p ! i) idx)
      else Inl IndexError)"

text \<open>Modelled from the spec: the framework's evaluation of offspring between variation
  and selection (the driver's "evaluate offspring" step, which the notebook leaves to the
  framework); it stores the
  problem's objective vector in every individual.\<close>

definition evaluate_pop :: "Problem \<Rightarrow> Individual list \<Rightarrow> Individual list" where
  "evaluate_pop p inds = map (\<lambda>ind. ind\<lparr>F := evaluate p (X ind)\<rparr>) inds"

section \<open>Array arithmetic\<close>

text \<open>A numpy array of shape (P, N) is a list of P rows of N reals. The elementwise
  operations below are numpy's on arrays of equal shape. On shapes that do not fit numpy
  raises; the functions here compute on the common part instead, and every theorem
  about them assumes the shapes the algorithms keep (\<open>MOPSO_rows\<close>, \<open>MODE_rows\<close> below).\<close>

definition vec_add :: "real list \<Rightarrow> real list \<Rightarrow> real list" where
  "vec_add a b = map2 (+) a b"

definition vec_sub :: "real list \<Rightarrow> real list \<Rightarrow> real list" where
  "vec_sub a b = map2 (-) a b"

definition vec_mul :: "real list \<Rightarrow> real list \<Rightarrow> real list" where
  "vec_mul a b = map2 (*) a b"

definition vec_scale :: "real \<Rightarrow> real list \<Rightarrow> real list" where
  "vec_scale c a = map (\<lambda>x. c * x) a"

definition mat_add :: "real list list \<Rightarrow> real list list \<Rightarrow> real list list" where
  "mat_add A B = map2 vec_add A B"

definition mat_sub :: "real list list \<Rightarrow> real list list \<Rightarrow> real list list" where
  "mat_sub A B = map2 vec_sub A B"

definition mat_mul :: "real list list \<Rightarrow> real list list \<Rightarrow> real list list" where
  "mat_mul A B = map2 vec_mul A B"

definition mat_scale :: "real \<Rightarrow> real list list \<Rightarrow> real list list" where
  "mat_scale c A = map (vec_scale c) A"

text \<open>A vector of shape (N,) minus an array of shape (P, N): the vector is broadcast
  along the rows.\<close>

definition row_sub_mat :: "real list \<Rightarrow> real list list \<Rightarrow> real list list" where
  "row_sub_mat v A = map (\<lambda>row. vec_sub v row) A"

text \<open>\<^verbatim>\<open>np.clip(A, lo, hi)\<close> with the bounds broadcast along the rows; numpy
  computes \<^verbatim>\<open>minimum(maximum(A, lo), hi)\<close>.\<close>

definition clip_row :: "real list \<Rightarrow> real list \<Rightarrow> real list \<Rightarrow> real list" where
  "clip_row row lo hi = map (\<lambda>(x, l, h). min (max x l) h) (zip row (zip lo hi))"

definition np_clip :: "real list list \<Rightarrow> real list \<Rightarrow> real list \<Rightarrow> real list list" where
  "np_clip A lo hi = map (\<lambda>row. clip_row row lo hi) A"

text \<open>\<^verbatim>\<open>np.zeros((d0, d1))\<close>.\<close>

definition np_zeros :: "nat \<times> nat \<Rightarrow> real list list" where
  "np_zeros shape = (case shape of (d0, d1) \<Rightarrow> replicate d0 (replicate d1 0))"

section \<open>Non-dominated sorting\<close>

text \<open>Modelled from the spec: which objective vectors hold a non-finite value in the
  sense of the spec's error handling, NaN or Infinity (the notebook has no code for such
  values; the rule belongs to the ranking it imports). The value -Infinity is at most
  every value under the comparisons, so a vector holding it dominates by the rule of
  section 4.1; it is left to that rule, which section 7 extends and does not reverse.\<close>

definition NaN_or_Infinity :: "fval list \<Rightarrow> bool" where
  "NaN_or_Infinity a = list_ex (\<lambda>v. v = NaN \<or> v = PosInf) a"

text \<open>Modelled from the spec: the domination rule of Non-Dominated Sorting (the
  notebook imports \<^verbatim>\<open>NonDominatedSorting\<close> from a library, so its code is not part
  of the repository). A dominates B iff A is at most B in every objective and strictly
  smaller in at least one (section 4.1), or B holds a non-finite objective value and A
  holds none: a candidate with a non-finite objective is treated as dominated by
  everything and sorts last (section 7). The vectors have equal length.\<close>

definition pareto_dominates :: "fval list \<Rightarrow> fval list \<Rightarrow> bool" where
  "pareto_dominates a b =
     (length a = length b \<and>
      ((list_all (\<lambda>i. fle (a ! i) (b ! i)) [0..<length a] \<and>
        list_ex (\<lambda>i. flt (a ! i) (b ! i)) [0..<length a]) \<or>
       (\<not> NaN_or_Infinity a \<and> NaN_or_Infinity b)))"

text \<open>Modelled from the spec: the candidates among \<open>rem\<close> whose domination count
  within \<open>rem\<close> is zero.\<close>

definition zero_count :: "fval list list \<Rightarrow> nat list \<Rightarrow> nat list" where
  "zero_count Fs rem =
     filter (\<lambda>i. \<not> list_ex (\<lambda>j. pareto_dominates (Fs ! j) (Fs ! i)) rem) rem"

text \<open>Modelled from the spec: the ranking. Front 0 is every candidate with domination
  count zero; peeling a front decrements the counts of everyone its members dominate, and
  the candidates that reach zero form the next front. The peeling stops when no candidate
  is left, or when no candidate has count zero.\<close>

function peel_fronts :: "fval list list \<Rightarrow> nat list \<Rightarrow> nat list list" where
  "peel_fronts Fs rem =
     (let front = zero_count Fs rem in
      if front = [] then []
      else front # peel_fronts Fs (filter (\<lambda>i. i \<notin> set front) rem))"
  by pat_completeness auto
termination
proof (relation "measure (\<lambda>(Fs, rem). length rem)")
  show "wf (measure (\<lambda>(Fs, rem). length rem))"
    by simp
next
  fix Fs :: "fval list list" and rem front :: "nat list"
  assume front: "front = zero_count Fs rem" and ne: "front \<noteq> []"
  from ne obtain i where i: "i \<in> set front"
    by (cases front) auto
  with front have "i \<in> set rem"
    by (simp add: zero_count_def)
  with i have "length (filter (\<lambda>i. i \<notin> set front) rem) < length rem"
    by (intro length_filter_less) auto
  then show "((Fs, filter (\<lambda>i. i \<notin> set front) rem), (Fs, rem))
               \<in> measure (\<lambda>(Fs, rem). length rem)"
    by simp
qed

declare peel_fronts.simps [simp del]

text \<open>Modelled from the spec: \<^verbatim>\<open>NonDominatedSorting().do(F)\<close>, the ordered fronts
  of the candidate indices.\<close>

definition NonDominatedSorting_do :: "fval list list \<Rightarrow> nat list list" where
  "NonDominatedSorting_do Fs = peel_fronts Fs [0..<length Fs]"

text \<open>Modelled from the spec:
  \<^verbatim>\<open>NonDominatedSorting().do(F, only_non_dominated_front=True)\<close>, Front 0 alone.\<close>

definition NonDominatedSorting_first :: "fval list list \<Rightarrow> nat list" where
  "NonDominatedSorting_first Fs = zero_count Fs [0..<length Fs]"

text \<open>Bounds with \<open>xl \<le> xu\<close> in every dimension, and a population all of whose
  decision vectors have \<open>n_var\<close> coordinates within them.\<close>

definition ordered_bounds :: "Problem \<Rightarrow> bool" where
  "ordered_bounds p = list_all (\<lambda>k. xl p ! k \<le> xu p ! k) [0..<n_var p]"

definition in_bounds :: "Problem \<Rightarrow> Individual list \<Rightarrow> bool" where
  "in_bounds p inds =
     list_all (\<lambda>ind. length (X ind) = n_var p \<and>
                 list_all (\<lambda>k. xl p ! k \<le> X ind ! k \<and> X ind ! k \<le> xu p ! k) [0..<n_var p])
       inds"

section \<open>The algorithms' state\<close>

text \<open>The fields both classes inherit from the framework's \<^verbatim>\<open>Algorithm\<close>.\<close>

record Algorithm =
  problem :: Problem
  pop_size :: nat
  pop :: "Individual list"

text \<open>\<^verbatim>\<open>class MOPSO(Algorithm)\<close>.\<close>

record MOPSO = Algorithm +
  w :: real
  c1 :: real
  c2 :: real
  velocities :: "real list list"
  pbest :: "Individual list"
  gbest :: Individual

text \<open>\<^verbatim>\<open>class MODE(Algorithm)\<close>. The field \<open>F_factor\<close> is the class's
  \<^verbatim>\<open>self.F\<close>, renamed because \<open>F\<close> is the objective vector of an individual.\<close>

record MODE = Algorithm +
  F_factor :: real
  CR :: real

section \<open>Particle swarm: MOPSO\<close>

text \<open>\<^verbatim>\<open>MOPSO._initialize_infill\<close>.\<close>

definition MOPSO_initialize_infill :: "MOPSO \<Rightarrow> rng \<Rightarrow> Individual list \<times> rng" where
  "MOPSO_initialize_infill A g =
     (case np_random_uniform (xl (problem A)) (xu (problem A))
             (pop_size A, n_var (problem A)) g of
        (Xm, g') \<Rightarrow> (Population_new Xm, g'))"

text \<open>\<^verbatim>\<open>MOPSO._initialize_advance\<close>. Indexing the population raises IndexError
  out of range.\<close>

definition MOPSO_initialize_advance :: "MOPSO \<Rightarrow> Individual list \<Rightarrow> rng \<Rightarrow> error + MOPSO \<times> rng" where
  "MOPSO_initialize_advance A infills g =
     (case np_random_randint (pop_size A) g of
        Inl e \<Rightarrow> Inl e
      | Inr (r, g') \<Rightarrow>
          if r < length infills
          then Inr (A\<lparr>pop := infills,
                      velocities := np_zeros (pop_size A, n_var (problem A)),
                      pbest := infills,
                      gbest := infills ! r\<rparr>, g')
          else Inl IndexError)"

text \<open>\<^verbatim>\<open>MOPSO._infill\<close>: the new velocities are stored in the algorithm, the
  clipped positions are returned as the offspring.\<close>

definition MOPSO_infill :: "MOPSO \<Rightarrow> rng \<Rightarrow> (Individual list \<times> MOPSO) \<times> rng" where
  "MOPSO_infill A g =
     (let Xm = map X (pop A) in
      case np_random_random_shape (2, pop_size A, n_var (problem A)) g of
        (r, g') \<Rightarrow>
          let r1 = r ! 0;
              r2 = r ! 1;
              vel = mat_add
                      (mat_add (mat_scale (w A) (velocities A))
                               (mat_mul (mat_scale (c1 A) r1) (mat_sub (map X (pbest A)) Xm)))
                      (mat_mul (mat_scale (c2 A) r2) (row_sub_mat (X (gbest A)) Xm));
              Xn = mat_add Xm vel;
              Xc = np_clip Xn (xl (problem A)) (xu (problem A))
          in ((Population_new Xc, A\<lparr>velocities := vel\<rparr>), g'))"

text \<open>\<^verbatim>\<open>MOPSO.dominate\<close>:
  \<^verbatim>\<open>np.all(a.F <= b.F) and np.any(a.F < b.F)\<close>, on objective vectors of one
  length.\<close>

definition dominate :: "Individual \<Rightarrow> Individual \<Rightarrow> bool" where
  "dominate a b =
     (list_all (\<lambda>(x, y). fle x y) (zip (F a) (F b)) \<and>
      list_ex (\<lambda>(x, y). flt x y) (zip (F a) (F b)))"

text \<open>\<^verbatim>\<open>MOPSO.non_dominated\<close>.\<close>

definition non_dominated :: "Individual list \<Rightarrow> Individual list" where
  "non_dominated p =
     (let Fm = map F p;
          non_dominated_indices = NonDominatedSorting_first Fm
      in map (\<lambda>i. p ! i) non_dominated_indices)"

text \<open>The personal-best loop of \<^verbatim>\<open>MOPSO._advance\<close>, over the indices
  \<^verbatim>\<open>range(self.pop_size)\<close>.\<close>

fun update_pbest :: "Individual list \<Rightarrow> Individual list \<Rightarrow> nat list \<Rightarrow> error + Individual list" where
  "update_pbest p pb [] = Inr pb"
| "update_pbest p pb (i # rest) =
     (if i < length p \<and> i < length pb
      then update_pbest p (if dominate (p ! i) (pb ! i) then pb[i := p ! i] else pb) rest
      else Inl IndexError)"

text \<open>\<^verbatim>\<open>MOPSO._advance\<close>.\<close>

definition MOPSO_advance :: "MOPSO \<Rightarrow> Individual list \<Rightarrow> rng \<Rightarrow> error + MOPSO \<times> rng" where
  "MOPSO_advance A infills g =
     (case update_pbest infills (pbest A) [0..<pop_size A] of
        Inl e \<Rightarrow> Inl e
      | Inr pb \<Rightarrow>
          let nd = non_dominated pb in
          if length nd > 0
          then (case np_random_randint (length nd) g of
                  Inl e \<Rightarrow> Inl e
                | Inr (r, g') \<Rightarrow> Inr (A\<lparr>pop := infills, pbest := pb, gbest := nd ! r\<rparr>, g'))
          else Inr (A\<lparr>pop := infills, pbest := pb\<rparr>, g))"

text \<open>The shapes \<^verbatim>\<open>MOPSO\<close> keeps between generations: \<open>pop_size\<close> members,
  velocities and personal bests.\<close>

definition MOPSO_shape :: "MOPSO \<Rightarrow> bool" where
  "MOPSO_shape A =
     (length (pop A) = pop_size A \<and> length (velocities A) = pop_size A \<and>
      length (pbest A) = pop_size A)"

text \<open>The shapes of a well-formed \<^verbatim>\<open>MOPSO\<close> on its problem: besides the row
  counts, every decision vector, velocity and bound array has \<open>n_var\<close> entries.\<close>

definition MOPSO_rows :: "MOPSO \<Rightarrow> bool" where
  "MOPSO_rows A =
     (MOPSO_shape A \<and>
      list_all (\<lambda>ind. length (X ind) = n_var (problem A)) (pop A) \<and>
      list_all (\<lambda>ind. length (X ind) = n_var (problem A)) (pbest A) \<and>
      list_all (\<lambda>row. length row = n_var (problem A)) (velocities A) \<and>
      length (X (gbest A)) = n_var (problem A) \<and>
      length (xl (problem A)) = n_var (problem A) \<and>
      length (xu (problem A)) = n_var (problem A))"

text \<open>Modelled from the spec: the driver's first generation (a population sampled within
  the bounds, evaluated, then handed to the algorithm) and every later generation
  (variation, evaluation of the offspring, then the algorithm's advance). The loop is the
  framework's; \<open>MOPSO_run\<close> records the algorithm after every generation.\<close>

definition MOPSO_first :: "MOPSO \<Rightarrow> rng \<Rightarrow> error + MOPSO \<times> rng" where
  "MOPSO_first A g =
     (case MOPSO_initialize_infill A g of
        (infills, g1) \<Rightarrow> MOPSO_initialize_advance A (evaluate_pop (problem A) infills) g1)"

definition MOPSO_next :: "MOPSO \<Rightarrow> rng \<Rightarrow> error + MOPSO \<times> rng" where
  "MOPSO_next A g =
     (case MOPSO_infill A g of
        ((off, A1), g1) \<Rightarrow> MOPSO_advance A1 (evaluate_pop (problem A1) off) g1)"

fun MOPSO_run :: "nat \<Rightarrow> MOPSO \<Rightarrow> rng \<Rightarrow> error + MOPSO list \<times> rng" where
  "MOPSO_run 0 A g = Inr ([A], g)"
| "MOPSO_run (Suc n) A g =
     (case MOPSO_next A g of
        Inl e \<Rightarrow> Inl e
      | Inr (A1, g1) \<Rightarrow>
          (case MOPSO_run n A1 g1 of
             Inl e \<Rightarrow> Inl e
           | Inr (tr, g2) \<Rightarrow> Inr (A # tr, g2)))"

section \<open>Differential evolution: MODE\<close>

text \<open>The inner loop of \<^verbatim>\<open>MODE._infill\<close> over the dimensions \<open>k\<close>: one uniform
  draw per dimension, made before \<open>k\<close> is compared with \<open>j\<close>.\<close>

fun infill_dims :: "real \<Rightarrow> real list \<Rightarrow> real list \<Rightarrow> nat \<Rightarrow> nat list \<Rightarrow> rng \<Rightarrow> real list \<times> rng" where
  "infill_dims cr v xi j [] g = ([], g)"
| "infill_dims cr v xi j (k # ks) g =
     (case np_random_random g of
        (u, g1) \<Rightarrow>
          (case infill_dims cr v xi j ks g1 of
             (rest, g2) \<Rightarrow> ((if u < cr \<or> k = j then v ! k else xi ! k) # rest, g2)))"

text \<open>The outer loop of \<^verbatim>\<open>MODE._infill\<close> over the targets \<open>i\<close>. Every cell of
  \<^verbatim>\<open>off\<close> is assigned once, so the rows are built in order and the initial fill of
  \<^verbatim>\<open>off\<close> never survives.\<close>

fun infill_rows :: "MODE \<Rightarrow> real list list \<Rightarrow> nat list \<Rightarrow> rng \<Rightarrow> error + real list list \<times> rng" where
  "infill_rows A Xm [] g = Inr ([], g)"
| "infill_rows A Xm (i # rest) g =
     (case np_random_choice [0..<pop_size A] 3 g of
        Inl e \<Rightarrow> Inl e
      | Inr (abc, g1) \<Rightarrow>
          let a = abc ! 0; b = abc ! 1; c = abc ! 2;
              v = vec_add (Xm ! a) (vec_scale (F_factor A) (vec_sub (Xm ! b) (Xm ! c)))
          in (case np_random_randint (n_var (problem A)) g1 of
                Inl e \<Rightarrow> Inl e
              | Inr (j, g2) \<Rightarrow>
                  (case infill_dims (CR A) v (Xm ! i) j [0..<n_var (problem A)] g2 of
                     (row, g3) \<Rightarrow>
                       (case infill_rows A Xm rest g3 of
                          Inl e \<Rightarrow> Inl e
                        | Inr (rows, g4) \<Rightarrow> Inr (row # rows, g4)))))"

text \<open>\<^verbatim>\<open>MODE._infill\<close>.\<close>

definition MODE_infill :: "MODE \<Rightarrow> rng \<Rightarrow> error + Individual list \<times> rng" where
  "MODE_infill A g =
     (let Xm = map X (pop A) in
      case infill_rows A Xm [0..<pop_size A] g of
        Inl e \<Rightarrow> Inl e
      | Inr (off, g') \<Rightarrow>
          Inr (Population_new (np_clip off (xl (problem A)) (xu (problem A))), g'))"

text \<open>The shapes of a well-formed \<^verbatim>\<open>MODE\<close> on its problem.\<close>

definition MODE_rows :: "MODE \<Rightarrow> bool" where
  "MODE_rows A =
     (length (pop A) = pop_size A \<and>
      list_all (\<lambda>ind. length (X ind) = n_var (problem A)) (pop A) \<and>
      length (xl (problem A)) = n_var (problem A) \<and>
      length (xu (problem A)) = n_var (problem A))"

text \<open>One row of the offspring in closed form, following the spec's description of the DE
  step when the generator's cursor stands at \<open>t\<close>: three donors from a draw without
  replacement, the trial vector, the guaranteed dimension \<open>j\<close>, and one uniform draw per
  dimension. The loops of \<^verbatim>\<open>MODE._infill\<close> are compared with it below.\<close>

definition de_row :: "MODE \<Rightarrow> real list list \<Rightarrow> rng \<Rightarrow> nat \<Rightarrow> nat \<Rightarrow> real list" where
  "de_row A Xm g t i =
     (let abc = take 3 (shuffle g t (pop_size A));
          a = abc ! 0; b = abc ! 1; c = abc ! 2;
          v = vec_add (Xm ! a) (vec_scale (F_factor A) (vec_sub (Xm ! b) (Xm ! c)));
          j = integer g (Suc t) (n_var (problem A))
      in map (\<lambda>k. if uniform g (t + 2 + k) < CR A \<or> k = j then v ! k else Xm ! i ! k)
           [0..<n_var (problem A)])"

text \<open>The selection loop of \<^verbatim>\<open>MODE._advance\<close> over the fronts, with
  \<^verbatim>\<open>next_pop\<close> as accumulator; the \<^verbatim>\<open>break\<close> ends the loop after the first front
  that does not fit.\<close>

fun select_fronts :: "nat \<Rightarrow> nat list list \<Rightarrow> nat list \<Rightarrow> rng \<Rightarrow> error + nat list \<times> rng" where
  "select_fronts ps [] next_pop g = Inr (next_pop, g)"
| "select_fronts ps (front # fronts) next_pop g =
     (if length next_pop + length front \<le> ps
      then select_fronts ps fronts (next_pop @ front) g
      else (let remaining = int ps - int (length next_pop) in
            case np_random_choice front remaining g of
              Inl e \<Rightarrow> Inl e
            | Inr (selected, g') \<Rightarrow> Inr (next_pop @ selected, g')))"

text \<open>\<^verbatim>\<open>MODE._advance\<close>.\<close>

definition MODE_advance :: "MODE \<Rightarrow> Individual list \<Rightarrow> rng \<Rightarrow> error + MODE \<times> rng" where
  "MODE_advance A infills g =
     (let pool = Population_merge (pop A) infills;
          Fm = map F pool;
          fronts = NonDominatedSorting_do Fm
      in case select_fronts (pop_size A) fronts [] g of
           Inl e \<Rightarrow> Inl e
         | Inr (next_pop, g') \<Rightarrow>
             (case Population_index pool next_pop of
                Inl e \<Rightarrow> Inl e
              | Inr p \<Rightarrow> Inr (A\<lparr>pop := p\<rparr>, g')))"

text \<open>Modelled from the spec: one generation of the driver on MODE (variation,
  evaluation of the offspring, then the algorithm's advance on parents and offspring).\<close>

definition MODE_next :: "MODE \<Rightarrow> rng \<Rightarrow> error + MODE \<times> rng" where
  "MODE_next A g =
     (case MODE_infill A g of
        Inl e \<Rightarrow> Inl e
      | Inr (off, g1) \<Rightarrow> MODE_advance A (evaluate_pop (problem A) off) g1)"

section \<open>Example inputs\<close>

text \<open>A simple generator (every uniform answer is 1/2, the integer at draw \<open>t\<close> is
  \<open>t mod n\<close>, every permutation is the reversal of \<^verbatim>\<open>range(n)\<close>) and a small MODE
  state on the notebook's problem; the theorems below are instantiated on them.\<close>

definition fixed_rng :: rng where
  "fixed_rng = \<lparr>uniform = (\<lambda>t. 1 / 2), integer = (\<lambda>t n. t mod n), shuffle = (\<lambda>t n. rev [0..<n]), cursor = 0\<rparr>"

definition small_MODE :: MODE where
  "small_MODE = \<lparr>problem = ThreeDProblem, pop_size = 2,
     pop = [\<lparr>X = [0, 0, 0], F = [Finite 0, Finite 0, Finite 0]\<rparr>,
            \<lparr>X = [1, 0, 0], F = [Finite (-1/2), Finite (7/10), Finite 0]\<rparr>],
     F_factor = 1/2, CR = 1/2\<rparr>"

definition small_infills :: "Individual list" where
  "small_infills = [\<lparr>X = [0, 1, 0], F = [Finite (3/10), Finite (-4/5), Finite (1/5)]\<rparr>,
            \<lparr>X = [0, 0, -1], F = [Finite 0, Finite (-1), Finite (3/5)]\<rparr>]"

text \<open>The small MODE state grown to four members, enough for three distinct donors.\<close>

definition mode4 :: MODE where
  "mode4 = small_MODE\<lparr>pop_size := 4, pop := pop small_MODE @ small_infills\<rparr>"

text \<open>A swarm of two on the notebook's problem: before initialisation, and initialised
  on two evaluated candidates of which the second dominates the first.\<close>

definition swarm_start :: "Individual list" where
  "swarm_start =
     [\<lparr>X = [-3/5, -1, -7/20], F = [Finite 0, Finite (3/100), Finite (1/100)]\<rparr>,
      \<lparr>X = [0, 0, 0], F = [Finite 0, Finite 0, Finite 0]\<rparr>]"

definition swarm0 :: MOPSO where
  "swarm0 = \<lparr>problem = ThreeDProblem, pop_size = 2, pop = [],
     w = 9 / 10, c1 = 2, c2 = 2,
     velocities = [], pbest = [], gbest = \<lparr>X = [], F = []\<rparr>\<rparr>"

definition swarm1 :: MOPSO where
  "swarm1 = swarm0\<lparr>pop := swarm_start, velocities := [[0, 0, 0], [0, 0, 0]],
     pbest := swarm_start, gbest := swarm_start ! 0\<rparr>"

text \<open>The same swarm with the dominating candidate as global best: in one generation the
  first particle moves onto it and improves its personal best.\<close>

definition swarm2 :: MOPSO where
  "swarm2 = swarm1\<lparr>gbest := swarm_start ! 1\<rparr>"

text \<open>The same swarm once more, with a NaN in the objectives of the first personal best,
  as left by a failed evaluation.\<close>

definition swarm3 :: MOPSO where
  "swarm3 = swarm2\<lparr>pbest := [\<lparr>X = [-3/5, -1, -7/20], F = [NaN, Finite (3/100), Finite (1/100)]\<rparr>,
                               \<lparr>X = [0, 0, 0], F = [Finite 0, Finite 0, Finite 0]\<rparr>]\<rparr>"

section \<open>Properties of the comparisons and of the ranking\<close>

lemma fle_trans: "fle a b \<Longrightarrow> fle b c \<Longrightarrow> fle a c"
  by (cases a; cases b; cases c) auto

lemma flt_fle_trans: "flt a b \<Longrightarrow> fle b c \<Longrightarrow> flt a c"
  by (cases a; cases b; cases c) auto

lemma flt_irrefl: "\<not> flt a a"
  by (cases a) auto

lemma flt_not_fle: "flt a b \<Longrightarrow> \<not> fle b a"
  by (cases a; cases b) auto

lemma NaN_or_Infinity_iff:
  "NaN_or_Infinity a \<longleftrightarrow> (\<exists>i<length a. a ! i = NaN \<or> a ! i = PosInf)"
  by (simp add: NaN_or_Infinity_def list_ex_length)

lemma pareto_dominates_iff:
  "pareto_dominates a b \<longleftrightarrow>
     length a = length b \<and>
     (((\<forall>i<length a. fle (a ! i) (b ! i)) \<and> (\<exists>i<length a. flt (a ! i) (b ! i))) \<or>
      (\<not> NaN_or_Infinity a \<and> NaN_or_Infinity b))"
  by (auto simp: pareto_dominates_def list_all_iff list_ex_iff)

lemma fle_PosInf: "fle PosInf y \<Longrightarrow> y = PosInf"
  by (cases y) simp_all

text \<open>The comparisons never put a vector with NaN or Infinity at or below one without.\<close>

lemma fle_all_NaN_or_Infinity:
  assumes "length a = length b" and "\<forall>i<length a. fle (a ! i) (b ! i)"
    and "NaN_or_Infinity a"
  shows "NaN_or_Infinity b"
proof -
  from assms(3) obtain i where i: "i < length a" and v: "a ! i = NaN \<or> a ! i = PosInf"
    by (auto simp: NaN_or_Infinity_iff)
  from assms(2) i have le: "fle (a ! i) (b ! i)"
    by simp
  from v have "b ! i = PosInf"
  proof
    assume "a ! i = NaN"
    with le show ?thesis by (cases "b ! i") simp_all
  next
    assume "a ! i = PosInf"
    with le show ?thesis by (simp add: fle_PosInf)
  qed
  with i assms(1) show ?thesis
    by (auto simp: NaN_or_Infinity_iff)
qed

lemma pareto_dominates_irrefl: "\<not> pareto_dominates a a"
  by (simp add: pareto_dominates_iff flt_irrefl)

lemma pareto_dominates_trans:
  assumes "pareto_dominates a b" and "pareto_dominates b c"
  shows "pareto_dominates a c"
proof -
  let ?le = "\<lambda>x y. (\<forall>i<length a. fle (x ! i) (y ! i)) \<and> (\<exists>i<length a. flt (x ! i) (y ! i))"
  from assms have len: "length a = length b" "length b = length c"
    by (simp_all add: pareto_dominates_iff)
  from assms(1) len have ab: "?le a b \<or> (\<not> NaN_or_Infinity a \<and> NaN_or_Infinity b)"
    by (simp add: pareto_dominates_iff)
  from assms(2) len have bc: "?le b c \<or> (\<not> NaN_or_Infinity b \<and> NaN_or_Infinity c)"
    by (simp add: pareto_dominates_iff)
  have "?le a c \<or> (\<not> NaN_or_Infinity a \<and> NaN_or_Infinity c)"
  proof (cases "?le a b")
    case True
    note leab = this
    show ?thesis
    proof (cases "?le b c")
      case True
      from leab obtain i where i: "i < length a" "flt (a ! i) (b ! i)"
        by blast
      with True have "flt (a ! i) (c ! i)"
        by (blast intro: flt_fle_trans)
      moreover from leab True have "\<forall>i<length a. fle (a ! i) (c ! i)"
        by (blast intro: fle_trans)
      ultimately show ?thesis
        using i(1) by blast
    next
      case False
      with bc have b: "\<not> NaN_or_Infinity b" and c: "NaN_or_Infinity c"
        by blast+
      from leab have "\<forall>i<length a. fle (a ! i) (b ! i)"
        by blast
      with len(1) b have "\<not> NaN_or_Infinity a"
        using fle_all_NaN_or_Infinity [of a b] by blast
      with c show ?thesis
        by blast
    qed
  next
    case False
    with ab have a: "\<not> NaN_or_Infinity a" and b: "NaN_or_Infinity b"
      by blast+
    with bc have "?le b c"
      by blast
    then have "\<forall>i<length b. fle (b ! i) (c ! i)"
      using len(1) by simp
    with len(2) b have "NaN_or_Infinity c"
      using fle_all_NaN_or_Infinity [of b c] by blast
    with a show ?thesis
      by blast
  qed
  with len show ?thesis
    by (simp add: pareto_dominates_iff)
qed

text \<open>A non-empty list of candidates has one that no other dominates.\<close>

lemma exists_undominated:
  assumes "rem \<noteq> []"
  shows "\<exists>i\<in>set rem. \<forall>j\<in>set rem. \<not> pareto_dominates (Fs ! j) (Fs ! i)"
proof -
  define r where "r = {(j, i). j \<in> set rem \<and> i \<in> set rem \<and> pareto_dominates (Fs ! j) (Fs ! i)}"
  have "r \<subseteq> set rem \<times> set rem"
    by (auto simp: r_def)
  then have fin: "finite r"
    by (rule finite_subset) simp
  have tr: "trans r"
  proof (rule transI)
    fix x y z
    assume "(x, y) \<in> r" and "(y, z) \<in> r"
    then have xz: "x \<in> set rem" "z \<in> set rem"
      and d: "pareto_dominates (Fs ! x) (Fs ! y)" "pareto_dominates (Fs ! y) (Fs ! z)"
      by (simp_all add: r_def)
    from d have "pareto_dominates (Fs ! x) (Fs ! z)"
      by (rule pareto_dominates_trans)
    with xz show "(x, z) \<in> r"
      by (simp add: r_def)
  qed
  have irr: "irrefl r"
    by (simp add: r_def irrefl_def pareto_dominates_irrefl)
  have "acyclic r"
    using tr irr by (simp add: acyclic_irrefl)
  with fin have "wf r"
    by (rule finite_acyclic_wf)
  from assms obtain x where x: "x \<in> set rem"
    by (cases rem) auto
  have "\<exists>z\<in>set rem. \<forall>y. (y, z) \<in> r \<longrightarrow> y \<notin> set rem"
  proof (rule wfE_min [OF \<open>wf r\<close> x])
    fix z
    assume "z \<in> set rem" and "\<And>y. (y, z) \<in> r \<Longrightarrow> y \<notin> set rem"
    then show ?thesis by blast
  qed
  then obtain z where z: "z \<in> set rem" "\<forall>y. (y, z) \<in> r \<longrightarrow> y \<notin> set rem"
    by blast
  have "\<not> pareto_dominates (Fs ! j) (Fs ! z)" if j: "j \<in> set rem" for j
  proof
    assume "pareto_dominates (Fs ! j) (Fs ! z)"
    with j z(1) have "(j, z) \<in> r"
      by (simp add: r_def)
    with z(2) have "j \<notin> set rem"
      by blast
    with j show False
      by simp
  qed
  with z(1) show ?thesis by blast
qed

lemma zero_count_nonempty: "rem \<noteq> [] \<Longrightarrow> zero_count Fs rem \<noteq> []"
proof -
  assume "rem \<noteq> []"
  then obtain i where "i \<in> set rem" "\<forall>j\<in>set rem. \<not> pareto_dominates (Fs ! j) (Fs ! i)"
    using exists_undominated by blast
  then have "i \<in> set (zero_count Fs rem)"
    by (auto simp: zero_count_def list_ex_iff)
  then show ?thesis by auto
qed

lemma zero_count_subset: "set (zero_count Fs rem) \<subseteq> set rem"
  by (auto simp: zero_count_def)

lemma distinct_zero_count: "distinct rem \<Longrightarrow> distinct (zero_count Fs rem)"
  by (simp add: zero_count_def)

lemma peel_fronts_Nil: "zero_count Fs rem = [] \<Longrightarrow> peel_fronts Fs rem = []"
  by (subst peel_fronts.simps) simp

lemma peel_fronts_Cons:
  "zero_count Fs rem \<noteq> [] \<Longrightarrow>
     peel_fronts Fs rem =
       zero_count Fs rem # peel_fronts Fs (filter (\<lambda>i. i \<notin> set (zero_count Fs rem)) rem)"
  by (subst peel_fronts.simps) (simp add: Let_def)

lemma peel_fronts_partition:
  "distinct rem \<Longrightarrow>
     distinct (concat (peel_fronts Fs rem)) \<and> set (concat (peel_fronts Fs rem)) = set rem"
proof (induction Fs rem rule: peel_fronts.induct)
  case (1 Fs rem)
  let ?front = "zero_count Fs rem"
  show ?case
  proof (cases "?front = []")
    case True
    then have "rem = []"
      using zero_count_nonempty by blast
    with True show ?thesis
      by (simp add: peel_fronts_Nil)
  next
    case False
    let ?rest = "filter (\<lambda>i. i \<notin> set ?front) rem"
    have d: "distinct ?rest" using "1.prems" by simp
    have ih: "distinct (concat (peel_fronts Fs ?rest)) \<and>
      set (concat (peel_fronts Fs ?rest)) = set ?rest"
      using False d by (rule "1.IH" [OF refl])
    have eq: "concat (peel_fronts Fs rem) = ?front @ concat (peel_fronts Fs ?rest)"
      using False by (simp add: peel_fronts_Cons)
    have f: "distinct ?front" using "1.prems" by (rule distinct_zero_count)
    have dis: "set ?front \<inter> set ?rest = {}" by auto
    have un: "set ?front \<union> set ?rest = set rem"
      using zero_count_subset [of Fs rem] by auto
    have "distinct (?front @ concat (peel_fronts Fs ?rest))"
      using f ih dis by simp
    moreover have "set (?front @ concat (peel_fronts Fs ?rest)) = set rem"
      using ih un by simp
    ultimately show ?thesis
      by (simp only: eq) 
  qed
qed

lemma NonDominatedSorting_do_partition:
  "distinct (concat (NonDominatedSorting_do Fs)) \<and>
   set (concat (NonDominatedSorting_do Fs)) = {..<length Fs}"
  using peel_fronts_partition [of "[0..<length Fs]" Fs]
  by (simp add: NonDominatedSorting_do_def lessThan_atLeast0)

lemma length_concat_NonDominatedSorting_do:
  "length (concat (NonDominatedSorting_do Fs)) = length Fs"
proof -
  from NonDominatedSorting_do_partition [of Fs]
  have d: "distinct (concat (NonDominatedSorting_do Fs))"
    and s: "set (concat (NonDominatedSorting_do Fs)) = {..<length Fs}"
    by blast+
  from d have "card (set (concat (NonDominatedSorting_do Fs))) = length (concat (NonDominatedSorting_do Fs))"
    by (rule distinct_card)
  with s show ?thesis
    by simp
qed

text \<open>Candidates with a non-finite objective sort last: in the ranking, a candidate holding
  NaN or Infinity stands in a later front than every candidate holding neither.\<close>

lemma peel_fronts_last:
  assumes "distinct rem"
    and "p < length (peel_fronts Fs rem)" and "i \<in> set (peel_fronts Fs rem ! p)"
    and "q < length (peel_fronts Fs rem)" and "j \<in> set (peel_fronts Fs rem ! q)"
    and "NaN_or_Infinity (Fs ! i)" and "\<not> NaN_or_Infinity (Fs ! j)"
    and "length (Fs ! j) = length (Fs ! i)"
  shows "q < p"
  using assms
proof (induction Fs rem arbitrary: p q rule: peel_fronts.induct)
  case (1 Fs rem)
  let ?front = "zero_count Fs rem"
  let ?rest = "filter (\<lambda>i. i \<notin> set ?front) rem"
  have ne: "?front \<noteq> []"
  proof
    assume "?front = []"
    then have "peel_fronts Fs rem = []"
      by (rule peel_fronts_Nil)
    with "1.prems"(2) show False
      by simp
  qed
  then have eq: "peel_fronts Fs rem = ?front # peel_fronts Fs ?rest"
    by (rule peel_fronts_Cons)
  from "1.prems"(4,5) have "j \<in> set (concat (peel_fronts Fs rem))"
    by (auto simp del: peel_fronts.simps)
  with peel_fronts_partition [OF "1.prems"(1), of Fs] have j: "j \<in> set rem"
    by simp
  from "1.prems"(6,7,8) have "pareto_dominates (Fs ! j) (Fs ! i)"
    by (simp add: pareto_dominates_iff)
  with j have "i \<notin> set ?front"
    by (auto simp: zero_count_def list_ex_iff)
  with "1.prems"(3) eq obtain p' where p: "p = Suc p'"
    by (cases p) simp_all
  show ?case
  proof (cases q)
    case 0
    with p show ?thesis by simp
  next
    case (Suc q')
    have d: "distinct ?rest"
      using "1.prems"(1) by simp
    from "1.prems"(2,3) p eq have pi: "p' < length (peel_fronts Fs ?rest)"
      "i \<in> set (peel_fronts Fs ?rest ! p')"
      by simp_all
    from "1.prems"(4,5) Suc eq have qj: "q' < length (peel_fronts Fs ?rest)"
      "j \<in> set (peel_fronts Fs ?rest ! q')"
      by simp_all
    from "1.IH" [OF refl ne d pi qj "1.prems"(6,7,8)] have "q' < p'" .
    with p Suc show ?thesis
      by simp
  qed
qed

lemma NonDominatedSorting_do_last:
  assumes "p < length (NonDominatedSorting_do Fs)" and "i \<in> set (NonDominatedSorting_do Fs ! p)"
    and "q < length (NonDominatedSorting_do Fs)" and "j \<in> set (NonDominatedSorting_do Fs ! q)"
    and "NaN_or_Infinity (Fs ! i)" and "\<not> NaN_or_Infinity (Fs ! j)"
    and "length (Fs ! j) = length (Fs ! i)"
  shows "q < p"
  using peel_fronts_last [of "[0..<length Fs]" p Fs i q j] assms
  by (simp add: NonDominatedSorting_do_def)

text \<open>Three small rankings: NaN and Infinity go last whatever their other objectives,
  and -Infinity is ranked by the comparisons.\<close>

lemma NonDominatedSorting_do_NaN:
  "NonDominatedSorting_do [[NaN, Finite 1], [Finite 0, Finite 5], [PosInf, Finite 0]] = [[1], [0, 2]]"
  "NonDominatedSorting_do [[NaN, NaN], [Finite 0, Finite 0]] = [[1], [0]]"
  "NonDominatedSorting_do [[NegInf, Finite 1], [Finite 0, Finite 1]] = [[0], [1]]"
  by code_simp+

section \<open>Properties of the random generator\<close>

lemma valid_fixed_rng: "valid_rng fixed_rng"
  by (auto simp: valid_rng_def fixed_rng_def)

lemma valid_rng_advance [simp]: "valid_rng (advance_rng n g) = valid_rng g"
  by (simp add: valid_rng_def advance_rng_def)

lemma valid_rng_uniform: "valid_rng g \<Longrightarrow> 0 \<le> uniform g t \<and> uniform g t < 1"
  by (simp add: valid_rng_def)

lemma valid_rng_integer: "valid_rng g \<Longrightarrow> 0 < n \<Longrightarrow> integer g t n < n"
  by (simp add: valid_rng_def)

lemma valid_rng_shuffle:
  assumes "valid_rng g"
  shows "distinct (shuffle g t n)" and "set (shuffle g t n) = {..<n}"
    and "length (shuffle g t n) = n"
proof -
  show d: "distinct (shuffle g t n)" and s: "set (shuffle g t n) = {..<n}"
    using assms by (simp_all add: valid_rng_def)
  from d have "card (set (shuffle g t n)) = length (shuffle g t n)"
    by (rule distinct_card)
  with s show "length (shuffle g t n) = n"
    by simp
qed

text \<open>The sample \<open>a[permutation(len(a))[:k]]\<close>.\<close>

lemma sample_props:
  fixes t :: nat
  assumes g: "valid_rng g" and k: "k \<le> length a"
  defines "sel \<equiv> map (\<lambda>p. a ! p) (take k (shuffle g t (length a)))"
  shows "length sel = k" and "set sel \<subseteq> set a" and "distinct a \<Longrightarrow> distinct sel"
proof -
  let ?perm = "shuffle g t (length a)"
  note p = valid_rng_shuffle [OF g, of t "length a"]
  show "length sel = k"
    using k p(3) by (simp add: sel_def)
  have sub: "set (take k ?perm) \<subseteq> {..<length a}"
    using p(2) set_take_subset [of k ?perm] by blast
  then show "set sel \<subseteq> set a"
    by (auto simp: sel_def)
  assume da: "distinct a"
  have "inj_on (\<lambda>p. a ! p) (set (take k ?perm))"
  proof (rule inj_onI)
    fix x y
    assume "x \<in> set (take k ?perm)" and "y \<in> set (take k ?perm)" and "a ! x = a ! y"
    with sub have "x < length a" "y < length a" "a ! x = a ! y"
      by auto
    with da show "x = y"
      by (simp add: nth_eq_iff_index_eq)
  qed
  moreover have "distinct (take k ?perm)"
    using p(1) by simp
  ultimately show "distinct sel"
    by (simp add: sel_def distinct_map)
qed

lemma np_random_choice_Inr:
  assumes "0 \<le> k" and "k \<le> int (length a)"
  shows "np_random_choice a k g =
           Inr (map (\<lambda>p. a ! p) (take (nat k) (shuffle g (cursor g) (length a))), advance_rng 1 g)"
  using assms by (auto simp: np_random_choice_def)

lemma select_fronts_result:
  assumes "length acc \<le> ps"
  shows "\<exists>m sel g'. select_fronts ps fronts acc g = Inr (acc @ concat (take m fronts) @ sel, g') \<and>
           m \<le> length fronts \<and>
           length acc + length (concat (take m fronts)) \<le> ps \<and>
           (if m < length fronts
            then ps < length acc + length (concat (take (Suc m) fronts)) \<and>
                 sel = map (\<lambda>p. (fronts ! m) ! p)
                         (take (ps - (length acc + length (concat (take m fronts))))
                            (shuffle g (cursor g) (length (fronts ! m)))) \<and>
                 g' = advance_rng 1 g
            else sel = [] \<and> g' = g)"
  using assms
proof (induction fronts arbitrary: acc)
  case Nil
  then show ?case by simp
next
  case (Cons front rest)
  show ?case
  proof (cases "length acc + length front \<le> ps")
    case True
    then have "length (acc @ front) \<le> ps" by simp
    from Cons.IH [OF this] obtain m sel g' where
      r: "select_fronts ps rest (acc @ front) g = Inr ((acc @ front) @ concat (take m rest) @ sel, g')"
      and m: "m \<le> length rest"
      and le: "length (acc @ front) + length (concat (take m rest)) \<le> ps"
      and c: "if m < length rest
            then ps < length (acc @ front) + length (concat (take (Suc m) rest)) \<and>
                 sel = map (\<lambda>p. (rest ! m) ! p)
                         (take (ps - (length (acc @ front) + length (concat (take m rest))))
                            (shuffle g (cursor g) (length (rest ! m)))) \<and>
                 g' = advance_rng 1 g
            else sel = [] \<and> g' = g"
      by blast
    have "select_fronts ps (front # rest) acc g =
            Inr (acc @ concat (take (Suc m) (front # rest)) @ sel, g')"
      using True r by simp
    moreover have "Suc m \<le> length (front # rest)"
      using m by simp
    moreover have "length acc + length (concat (take (Suc m) (front # rest))) \<le> ps"
      using le by simp
    moreover have "if Suc m < length (front # rest)
            then ps < length acc + length (concat (take (Suc (Suc m)) (front # rest))) \<and>
                 sel = map (\<lambda>p. ((front # rest) ! Suc m) ! p)
                         (take (ps - (length acc + length (concat (take (Suc m) (front # rest)))))
                            (shuffle g (cursor g) (length ((front # rest) ! Suc m)))) \<and>
                 g' = advance_rng 1 g
            else sel = [] \<and> g' = g"
      using c by (cases "m < length rest") (simp_all add: add.assoc)
    ultimately show ?thesis
      by blast
  next
    case False
    let ?k = "int ps - int (length acc)"
    have k: "0 \<le> ?k" "?k \<le> int (length front)" "nat ?k = ps - length acc"
      using False Cons.prems by auto
    let ?sel = "map (\<lambda>p. front ! p) (take (ps - length acc) (shuffle g (cursor g) (length front)))"
    have "select_fronts ps (front # rest) acc g = Inr (acc @ ?sel, advance_rng 1 g)"
      using False np_random_choice_Inr [OF k(1,2), of g] k(3) by (simp add: Let_def)
    then have "select_fronts ps (front # rest) acc g =
                 Inr (acc @ concat (take 0 (front # rest)) @ ?sel, advance_rng 1 g)"
      by simp
    moreover have "ps < length acc + length (concat (take (Suc 0) (front # rest)))"
      using False by simp
    ultimately show ?thesis
      using Cons.prems
      by (intro exI [of _ 0] exI [of _ ?sel] exI [of _ "advance_rng 1 g"]) simp
  qed
qed

section \<open>Survival selection of MODE\<close>

lemma select_fronts_all:
  "length acc + length (concat fronts) \<le> ps \<Longrightarrow>
     select_fronts ps fronts acc g = Inr (acc @ concat fronts, g)"
  by (induction fronts arbitrary: acc) simp_all

lemma Population_index_Inr:
  "set idx \<subseteq> {..<length p} \<Longrightarrow> Population_index p idx = Inr (map (\<lambda>i. p ! i) idx)"
  by (auto simp: Population_index_def list_all_iff)

lemma concat_split_at:
  "m < length xss \<Longrightarrow> concat xss = concat (take m xss) @ xss ! m @ concat (drop (Suc m) xss)"
  by (subst id_take_nth_drop [of m xss]) simp_all

lemma distinct_concat_parts:
  assumes "distinct (concat xss)" and "m < length xss"
  shows "distinct (concat (take m xss))" and "distinct (xss ! m)"
    and "set (concat (take m xss)) \<inter> set (xss ! m) = {}"
    and "set (xss ! m) \<subseteq> set (concat xss)"
    and "set (concat (take m xss)) \<subseteq> set (concat xss)"
proof -
  let ?A = "concat (take m xss)" and ?B = "xss ! m" and ?C = "concat (drop (Suc m) xss)"
  have eq: "concat xss = ?A @ ?B @ ?C"
    using assms(2) by (rule concat_split_at)
  from assms(1) have d: "distinct (?A @ ?B @ ?C)"
    by (simp only: eq [symmetric])
  from d show "distinct ?A" and "distinct ?B" and "set ?A \<inter> set ?B = {}"
    by auto
  have "set (concat xss) = set (?A @ ?B @ ?C)"
    by (simp only: eq [symmetric])
  then show "set ?B \<subseteq> set (concat xss)" and "set ?A \<subseteq> set (concat xss)"
    by auto
qed

lemma length_concat_take_Suc:
  "m < length xss \<Longrightarrow>
     length (concat (take (Suc m) xss)) = length (concat (take m xss)) + length (xss ! m)"
  by (simp add: take_Suc_conv_app_nth)

lemma select_fronts_selection:
  assumes g: "valid_rng g" and part: "distinct (concat fronts)"
    and big: "ps \<le> length (concat fronts)"
  shows "\<exists>m sel g'.
           select_fronts ps fronts [] g = Inr (concat (take m fronts) @ sel, g') \<and>
           valid_rng g' \<and> m \<le> length fronts \<and>
           length (concat (take m fronts)) \<le> ps \<and>
           (if m < length fronts
            then ps < length (concat (take (Suc m) fronts)) \<and> set sel \<subseteq> set (fronts ! m)
            else sel = []) \<and>
           length sel = ps - length (concat (take m fronts)) \<and>
           distinct (concat (take m fronts) @ sel) \<and>
           set (concat (take m fronts) @ sel) \<subseteq> set (concat fronts)"
proof -
  have "\<exists>m sel g'. select_fronts ps fronts [] g = Inr (concat (take m fronts) @ sel, g') \<and>
           m \<le> length fronts \<and>
           length (concat (take m fronts)) \<le> ps \<and>
           (if m < length fronts
            then ps < length (concat (take (Suc m) fronts)) \<and>
                 sel = map (\<lambda>p. (fronts ! m) ! p)
                         (take (ps - length (concat (take m fronts)))
                            (shuffle g (cursor g) (length (fronts ! m)))) \<and>
                 g' = advance_rng 1 g
            else sel = [] \<and> g' = g)"
    using select_fronts_result [of "[]" ps fronts g]
    by (simp cong: if_cong split del: if_split)
  then obtain m sel g' where
    r: "select_fronts ps fronts [] g = Inr (concat (take m fronts) @ sel, g')"
    and m: "m \<le> length fronts"
    and le: "length (concat (take m fronts)) \<le> ps"
    and c: "if m < length fronts
            then ps < length (concat (take (Suc m) fronts)) \<and>
                 sel = map (\<lambda>p. (fronts ! m) ! p)
                         (take (ps - length (concat (take m fronts)))
                            (shuffle g (cursor g) (length (fronts ! m)))) \<and>
                 g' = advance_rng 1 g
            else sel = [] \<and> g' = g"
    by blast
  let ?next = "concat (take m fronts) @ sel"
  have props: "valid_rng g' \<and>
               (if m < length fronts
                then ps < length (concat (take (Suc m) fronts)) \<and> set sel \<subseteq> set (fronts ! m)
                else sel = []) \<and>
               length sel = ps - length (concat (take m fronts)) \<and>
               distinct ?next \<and> set ?next \<subseteq> set (concat fronts)"
  proof (cases "m < length fronts")
    case True
    let ?k = "ps - length (concat (take m fronts))"
    from True c have over: "ps < length (concat (take (Suc m) fronts))"
      and sel: "sel = map (\<lambda>p. (fronts ! m) ! p) (take ?k (shuffle g (cursor g) (length (fronts ! m))))"
      and g': "g' = advance_rng 1 g"
      by simp_all
    from over True have k: "?k \<le> length (fronts ! m)"
      by (simp add: length_concat_take_Suc)
    note d = distinct_concat_parts [OF part True]
    note sp = sample_props [OF g k, of "cursor g", folded sel]
    have "distinct sel"
      using sp(3) d(2) by simp
    moreover have sub: "set sel \<subseteq> set (fronts ! m)"
      by (rule sp(2))
    moreover note d(4) d(5)
    ultimately show ?thesis
      using True over d sp(1) g g' by (simp only: distinct_append set_append if_True) auto
  next
    case False
    with m c have all: "m = length fronts" "sel = []" "g' = g"
      by simp_all
    with le big have "length (concat fronts) = ps"
      by simp
    with all part g show ?thesis
      by simp
  qed
  with r m le show ?thesis
    by blast
qed

lemma select_fronts_at:
  assumes "m < length fronts"
    and "length acc + length (concat (take m fronts)) \<le> ps"
    and "ps < length acc + length (concat (take (Suc m) fronts))"
  shows "select_fronts ps fronts acc h =
           Inr (acc @ concat (take m fronts) @
                  map (\<lambda>p. (fronts ! m) ! p)
                    (take (ps - (length acc + length (concat (take m fronts))))
                       (shuffle h (cursor h) (length (fronts ! m)))),
                advance_rng 1 h)"
  using assms
proof (induction fronts arbitrary: acc m)
  case Nil
  then show ?case by simp
next
  case (Cons front rest)
  show ?case
  proof (cases m)
    case 0
    with Cons.prems have le: "length acc \<le> ps" and over: "ps < length acc + length front"
      by simp_all
    let ?k = "int ps - int (length acc)"
    have k: "0 \<le> ?k" "?k \<le> int (length front)" "nat ?k = ps - length acc"
      using le over by auto
    have "select_fronts ps (front # rest) acc h =
            Inr (acc @ map (\<lambda>p. front ! p) (take (ps - length acc) (shuffle h (cursor h) (length front))),
                 advance_rng 1 h)"
      using over np_random_choice_Inr [OF k(1,2), of h] k(3) by (simp add: Let_def)
    with 0 show ?thesis
      by simp
  next
    case (Suc m')
    with Cons.prems have m': "m' < length rest"
      and le: "length (acc @ front) + length (concat (take m' rest)) \<le> ps"
      and over: "ps < length (acc @ front) + length (concat (take (Suc m') rest))"
      by simp_all
    from le have fit: "length acc + length front \<le> ps"
      by simp
    from Cons.IH [OF m' le over]
    have "select_fronts ps rest (acc @ front) h =
           Inr ((acc @ front) @ concat (take m' rest) @
                  map (\<lambda>p. (rest ! m') ! p)
                    (take (ps - (length (acc @ front) + length (concat (take m' rest))))
                       (shuffle h (cursor h) (length (rest ! m')))),
                advance_rng 1 h)" .
    with fit Suc show ?thesis
      by (simp add: add.assoc)
  qed
qed

lemma positions_of:
  assumes "set want \<subseteq> set a"
  shows "\<exists>ps. want = map (\<lambda>p. a ! p) ps \<and> (\<forall>p\<in>set ps. p < length a)"
  using assms
proof (induction want)
  case Nil
  then show ?case by simp
next
  case (Cons x rest)
  then obtain ps where ps: "rest = map (\<lambda>p. a ! p) ps" "\<forall>p\<in>set ps. p < length a"
    by auto
  from Cons.prems obtain p where p: "p < length a" "x = a ! p"
    by (auto simp: in_set_conv_nth)
  with ps have "x # rest = map (\<lambda>p. a ! p) (p # ps) \<and> (\<forall>q\<in>set (p # ps). q < length a)"
    by simp
  then show ?case
    by (rule exI)
qed

text \<open>Every ordered sample without repetition is the answer of some generator.\<close>

lemma shuffle_reach:
  assumes g: "valid_rng g" and d: "distinct want" and sub: "set want \<subseteq> set a"
  shows "\<exists>g2. valid_rng g2 \<and>
           map (\<lambda>p. a ! p) (take (length want) (shuffle g2 (cursor g2) (length a))) = want"
proof -
  from positions_of [OF sub] obtain ps where
    w: "want = map (\<lambda>p. a ! p) ps" and b: "\<forall>p\<in>set ps. p < length a"
    by blast
  from d w have dp: "distinct ps"
    by (simp add: distinct_map)
  let ?perm = "ps @ filter (\<lambda>p. p \<notin> set ps) [0..<length a]"
  let ?g2 = "g\<lparr>shuffle := (\<lambda>t n. if n = length a then ?perm else shuffle g t n)\<rparr>"
  have "distinct ?perm"
    using dp by auto
  moreover have "set ?perm = {..<length a}"
    using b by auto
  ultimately have "valid_rng ?g2"
    using g by (simp add: valid_rng_def)
  moreover have "take (length want) (shuffle ?g2 (cursor ?g2) (length a)) = ps"
    using w by simp
  ultimately show ?thesis
    using w by (intro exI [of _ ?g2]) simp
qed

lemma small_MODE_fronts:
  "NonDominatedSorting_do (map F (Population_merge (pop small_MODE) small_infills)) = [[0, 1, 2, 3]]"
  by code_simp

lemma small_MODE_selection:
  "(case MODE_advance small_MODE small_infills fixed_rng of
      Inr (A', g') \<Rightarrow> (pop A', cursor g')
    | Inl e \<Rightarrow> ([], 0))
   = ([small_infills ! 1, small_infills ! 0], 1)"
  by code_simp

text \<open>Claim C7, as the code has it: whenever the merged pool of parents and offspring is
  smaller than \<open>pop_size\<close>, \<^verbatim>\<open>MODE._advance\<close> keeps every member of the pool, each
  exactly once and in front order, and returns normally without drawing a random number:
  the result is an ordinary return, not an error, so nothing tells the short population
  apart from a full one but its length.\<close>

theorem MODE_advance_underfilled:
  assumes "length (Population_merge (pop A) infills) < pop_size A"
  shows "let pool = Population_merge (pop A) infills;
             next_pop = concat (NonDominatedSorting_do (map F pool))
         in MODE_advance A infills g = Inr (A\<lparr>pop := map (\<lambda>i. pool ! i) next_pop\<rparr>, g) \<and>
            distinct next_pop \<and> set next_pop = {..<length pool}"
proof -
  let ?pool = "Population_merge (pop A) infills"
  let ?fronts = "NonDominatedSorting_do (map F ?pool)"
  have part: "distinct (concat ?fronts)" "set (concat ?fronts) = {..<length ?pool}"
    using NonDominatedSorting_do_partition [of "map F ?pool"] by simp_all
  have len: "length (concat ?fronts) = length ?pool"
    using length_concat_NonDominatedSorting_do [of "map F ?pool"] by simp
  have "select_fronts (pop_size A) ?fronts [] g = Inr (concat ?fronts, g)"
    using select_fronts_all [of "[]" ?fronts "pop_size A" g] len assms by simp
  moreover have "Population_index ?pool (concat ?fronts) = Inr (map (\<lambda>i. ?pool ! i) (concat ?fronts))"
    by (rule Population_index_Inr) (simp only: part)
  ultimately have "MODE_advance A infills g = Inr (A\<lparr>pop := map (\<lambda>i. ?pool ! i) (concat ?fronts)\<rparr>, g)"
    by (simp add: MODE_advance_def Let_def)
  with part show ?thesis
    by (simp add: Let_def)
qed

theorem MODE_advance_underfilled_witness:
  "length (Population_merge (pop (small_MODE\<lparr>pop_size := 5\<rparr>)) small_infills)
     < pop_size (small_MODE\<lparr>pop_size := 5\<rparr>) \<and>
   (\<exists>A'. MODE_advance (small_MODE\<lparr>pop_size := 5\<rparr>) small_infills fixed_rng
           = Inr (A', fixed_rng) \<and>
         length (pop A') = 4)"
proof -
  let ?A = "small_MODE\<lparr>pop_size := 5\<rparr>"
  have h: "length (Population_merge (pop ?A) small_infills) < pop_size ?A"
    by (simp add: small_MODE_def small_infills_def Population_merge_def)
  have n: "length (Population_merge (pop ?A) small_infills) = 4"
    by (simp add: small_MODE_def small_infills_def Population_merge_def)
  from MODE_advance_underfilled [OF h, of fixed_rng]
  have "MODE_advance ?A small_infills fixed_rng =
          Inr (?A\<lparr>pop := map (\<lambda>i. Population_merge (pop ?A) small_infills ! i)
                 (concat (NonDominatedSorting_do (map F (Population_merge (pop ?A) small_infills))))\<rparr>,
               fixed_rng)"
    by (simp only: Let_def)
  moreover have "length (concat (NonDominatedSorting_do (map F (Population_merge (pop ?A) small_infills)))) = 4"
    using length_concat_NonDominatedSorting_do [of "map F (Population_merge (pop ?A) small_infills)"] n
    by simp
  ultimately show ?thesis
    using h by simp
qed

text \<open>Claim C7 as stated asks for the underfilled outcome to be signalled distinctly from
  the success case. With a pool of four and a target of five the method returns normally,
  exactly as it does with a pool of four and a target of two.\<close>

theorem MODE_advance_underfilled_unsignalled:
  "length (Population_merge (pop (small_MODE\<lparr>pop_size := 5\<rparr>)) small_infills)
     < pop_size (small_MODE\<lparr>pop_size := 5\<rparr>) \<and>
   \<not> isl (MODE_advance (small_MODE\<lparr>pop_size := 5\<rparr>) small_infills fixed_rng) \<and>
   \<not> isl (MODE_advance small_MODE small_infills fixed_rng)"
  by code_simp

text \<open>Claim C1: for every merged pool of parents and offspring of at least \<open>pop_size\<close>
  members, \<^verbatim>\<open>MODE._advance\<close> returns normally with exactly \<open>pop_size\<close> candidates.
  The indices it keeps are the first \<open>m\<close> fronts in rank order, whole, where \<open>m\<close> fronts
  fit within \<open>pop_size\<close> and one more would not, followed by a sample \<open>sel\<close> of exactly
  \<open>pop_size\<close> minus the number already admitted, drawn without replacement from front
  \<open>m\<close>; no index is kept twice. The sample is random: it is read off the permutation the
  generator answers at its cursor, which then moves on by one draw, and every ordered
  sample of that size without repetition from front \<open>m\<close> is the one kept for some answer
  of the generator. When the fronts fill \<open>pop_size\<close> exactly, nothing is drawn.\<close>

theorem MODE_advance_fills_pop_size:
  assumes g: "valid_rng g"
    and big: "pop_size A \<le> length (Population_merge (pop A) infills)"
  shows "\<exists>A' g' m sel.
           MODE_advance A infills g = Inr (A', g') \<and>
           (let pool = Population_merge (pop A) infills;
                fronts = NonDominatedSorting_do (map F pool);
                next_pop = concat (take m fronts) @ sel
            in pop A' = map (\<lambda>i. pool ! i) next_pop \<and>
               length (pop A') = pop_size A \<and>
               distinct next_pop \<and> set next_pop \<subseteq> {..<length pool} \<and>
               m \<le> length fronts \<and>
               length (concat (take m fronts)) \<le> pop_size A \<and>
               (if m < length fronts
                then pop_size A < length (concat (take (Suc m) fronts)) \<and>
                     set sel \<subseteq> set (fronts ! m) \<and>
                     sel = map (\<lambda>p. (fronts ! m) ! p)
                             (take (pop_size A - length (concat (take m fronts)))
                                (shuffle g (cursor g) (length (fronts ! m)))) \<and>
                     g' = advance_rng 1 g \<and>
                     (\<forall>want. distinct want \<and> set want \<subseteq> set (fronts ! m) \<and>
                             length want = pop_size A - length (concat (take m fronts)) \<longrightarrow>
                        (\<exists>g2 A2 g2'. valid_rng g2 \<and>
                           MODE_advance A infills g2 = Inr (A2, g2') \<and>
                           pop A2 = map (\<lambda>i. pool ! i) (concat (take m fronts) @ want)))
                else sel = [] \<and> g' = g) \<and>
               length sel = pop_size A - length (concat (take m fronts)))"
proof -
  define ps where "ps = pop_size A"
  define pool where "pool = Population_merge (pop A) infills"
  define fronts where "fronts = NonDominatedSorting_do (map F pool)"
  have part: "distinct (concat fronts)" "set (concat fronts) = {..<length pool}"
    using NonDominatedSorting_do_partition [of "map F pool"] by (simp_all add: fronts_def)
  have len: "length (concat fronts) = length pool"
    using length_concat_NonDominatedSorting_do [of "map F pool"] by (simp add: fronts_def)
  with big have "ps \<le> length (concat fronts)"
    by (simp add: ps_def pool_def)
  from select_fronts_selection [OF g part(1) this] obtain m sel g' where
    r: "select_fronts ps fronts [] g = Inr (concat (take m fronts) @ sel, g')"
    and m: "m \<le> length fronts"
    and le: "length (concat (take m fronts)) \<le> ps"
    and c: "if m < length fronts
            then ps < length (concat (take (Suc m) fronts)) \<and> set sel \<subseteq> set (fronts ! m)
            else sel = []"
    and ls: "length sel = ps - length (concat (take m fronts))"
    and d: "distinct (concat (take m fronts) @ sel)"
    and sub: "set (concat (take m fronts) @ sel) \<subseteq> set (concat fronts)"
    by blast
  define adm where "adm = concat (take m fronts)"
  have run: "MODE_advance A infills h = Inr (A\<lparr>pop := map (\<lambda>i. pool ! i) idx\<rparr>, h')"
    if "select_fronts ps fronts [] h = Inr (idx, h')" and "set idx \<subseteq> set (concat fronts)"
    for h h' idx
  proof -
    from that(2) part(2) have "set idx \<subseteq> {..<length pool}"
      by simp
    then have "Population_index pool idx = Inr (map (\<lambda>i. pool ! i) idx)"
      by (rule Population_index_Inr)
    with that(1) show ?thesis
      by (simp add: MODE_advance_def Let_def ps_def pool_def fronts_def)
  qed
  from r sub have res: "MODE_advance A infills g = Inr (A\<lparr>pop := map (\<lambda>i. pool ! i) (adm @ sel)\<rparr>, g')"
    unfolding adm_def by (rule run)
  have full: "length (adm @ sel) = ps"
    using ls le by (simp add: adm_def)
  have inb: "set (adm @ sel) \<subseteq> {..<length pool}"
    using sub part(2) by (simp add: adm_def)
  have tail: "if m < length fronts
              then ps < length (concat (take (Suc m) fronts)) \<and>
                   set sel \<subseteq> set (fronts ! m) \<and>
                   sel = map (\<lambda>p. (fronts ! m) ! p)
                           (take (ps - length adm) (shuffle g (cursor g) (length (fronts ! m)))) \<and>
                   g' = advance_rng 1 g \<and>
                   (\<forall>want. distinct want \<and> set want \<subseteq> set (fronts ! m) \<and>
                           length want = ps - length adm \<longrightarrow>
                      (\<exists>g2 A2 g2'. valid_rng g2 \<and>
                         MODE_advance A infills g2 = Inr (A2, g2') \<and>
                         pop A2 = map (\<lambda>i. pool ! i) (adm @ want)))
              else sel = [] \<and> g' = g"
  proof (cases "m < length fronts")
    case True
    with c have over: "ps < length (concat (take (Suc m) fronts))"
      and ssub: "set sel \<subseteq> set (fronts ! m)"
      by simp_all
    have at: "select_fronts ps fronts [] h =
                Inr (adm @ map (\<lambda>p. (fronts ! m) ! p)
                             (take (ps - length adm) (shuffle h (cursor h) (length (fronts ! m)))),
                     advance_rng 1 h)" for h
      using select_fronts_at [of m fronts "[]" ps h] True le over by (simp add: adm_def)
    from r at [of g] have sel: "sel = map (\<lambda>p. (fronts ! m) ! p)
                           (take (ps - length adm) (shuffle g (cursor g) (length (fronts ! m))))"
      and g': "g' = advance_rng 1 g"
      by (simp_all add: adm_def)
    note dc = distinct_concat_parts [OF part(1) True]
    have reach: "\<exists>g2 A2 g2'. valid_rng g2 \<and>
                         MODE_advance A infills g2 = Inr (A2, g2') \<and>
                         pop A2 = map (\<lambda>i. pool ! i) (adm @ want)"
      if dw: "distinct want" and sw: "set want \<subseteq> set (fronts ! m)"
        and lw: "length want = ps - length adm" for want
    proof -
      from shuffle_reach [OF g dw sw] obtain g2 where
        v2: "valid_rng g2"
        and w2: "map (\<lambda>p. (fronts ! m) ! p)
                   (take (length want) (shuffle g2 (cursor g2) (length (fronts ! m)))) = want"
        by blast
      from at [of g2] w2 lw
      have s2: "select_fronts ps fronts [] g2 = Inr (adm @ want, advance_rng 1 g2)"
        by simp
      have "set (adm @ want) \<subseteq> set (concat fronts)"
        using dc(4) dc(5) sw by (simp add: adm_def)
      with s2 have "MODE_advance A infills g2 =
                      Inr (A\<lparr>pop := map (\<lambda>i. pool ! i) (adm @ want)\<rparr>, advance_rng 1 g2)"
        by (rule run)
      with v2 have "valid_rng g2 \<and>
          MODE_advance A infills g2 =
            Inr (A\<lparr>pop := map (\<lambda>i. pool ! i) (adm @ want)\<rparr>, advance_rng 1 g2) \<and>
          pop (A\<lparr>pop := map (\<lambda>i. pool ! i) (adm @ want)\<rparr>) = map (\<lambda>i. pool ! i) (adm @ want)"
        by simp
      then show ?thesis
        by blast
    qed
    from True over ssub sel g' reach show ?thesis
      by simp
  next
    case False
    with m c have all: "m = length fronts" "sel = []"
      by simp_all
    with le have "length [] + length (concat fronts) \<le> ps"
      by simp
    then have "select_fronts ps fronts [] g = Inr ([] @ concat fronts, g)"
      by (rule select_fronts_all)
    with r have "g' = g"
      by simp
    with False all show ?thesis
      by simp
  qed
  have body: "pop (A\<lparr>pop := map (\<lambda>i. pool ! i) (adm @ sel)\<rparr>) = map (\<lambda>i. pool ! i) (adm @ sel) \<and>
              length (pop (A\<lparr>pop := map (\<lambda>i. pool ! i) (adm @ sel)\<rparr>)) = ps \<and>
              distinct (adm @ sel) \<and> set (adm @ sel) \<subseteq> {..<length pool} \<and>
              m \<le> length fronts \<and> length adm \<le> ps"
    using full d inb m le by (simp add: adm_def)
  from res body tail ls show ?thesis
    unfolding Let_def adm_def ps_def pool_def fronts_def
    by (intro exI [of _ "A\<lparr>pop := map (\<lambda>i. Population_merge (pop A) infills ! i)
              (concat (take m (NonDominatedSorting_do (map F (Population_merge (pop A) infills)))) @ sel)\<rparr>"]
          exI [of _ g'] exI [of _ m] exI [of _ sel]) blast
qed

theorem MODE_advance_fills_pop_size_witness:
  "valid_rng fixed_rng \<and>
   pop_size small_MODE \<le> length (Population_merge (pop small_MODE) small_infills) \<and>
   (\<exists>A' g'. MODE_advance small_MODE small_infills fixed_rng = Inr (A', g') \<and>
            length (pop A') = 2 \<and> pop A' = [small_infills ! 1, small_infills ! 0] \<and>
            cursor g' = 1) \<and>
   (\<exists>g2 A2 g2'. valid_rng g2 \<and> MODE_advance small_MODE small_infills g2 = Inr (A2, g2') \<and>
            pop A2 = [pop small_MODE ! 0, small_infills ! 0])"
proof -
  let ?pool = "Population_merge (pop small_MODE) small_infills"
  let ?fronts = "NonDominatedSorting_do (map F ?pool)"
  have h: "pop_size small_MODE \<le> length ?pool"
    by (simp add: small_MODE_def small_infills_def Population_merge_def)
  have p: "pop_size small_MODE = 2"
    by (simp add: small_MODE_def)
  from MODE_advance_fills_pop_size [OF valid_fixed_rng h]
  obtain A' g' m sel where r: "MODE_advance small_MODE small_infills fixed_rng = Inr (A', g')"
    and l: "length (pop A') = pop_size small_MODE"
    and le: "length (concat (take m ?fronts)) \<le> pop_size small_MODE"
    and c: "if m < length ?fronts
            then pop_size small_MODE < length (concat (take (Suc m) ?fronts)) \<and>
                 set sel \<subseteq> set (?fronts ! m) \<and>
                 sel = map (\<lambda>p. (?fronts ! m) ! p)
                         (take (pop_size small_MODE - length (concat (take m ?fronts)))
                            (shuffle fixed_rng (cursor fixed_rng) (length (?fronts ! m)))) \<and>
                 g' = advance_rng 1 fixed_rng \<and>
                 (\<forall>want. distinct want \<and> set want \<subseteq> set (?fronts ! m) \<and>
                     length want = pop_size small_MODE - length (concat (take m ?fronts)) \<longrightarrow>
                   (\<exists>g2 A2 g2'. valid_rng g2 \<and>
                      MODE_advance small_MODE small_infills g2 = Inr (A2, g2') \<and>
                      pop A2 = map (\<lambda>i. ?pool ! i) (concat (take m ?fronts) @ want)))
            else sel = [] \<and> g' = fixed_rng"
    unfolding Let_def by blast
  from le p have m: "m = 0"
    unfolding small_MODE_fronts by (cases m) simp_all
  have lt: "m < length ?fronts"
    unfolding small_MODE_fronts m by simp
  note c [unfolded if_P [OF lt]]
  note this [THEN conjunct2, THEN conjunct2, THEN conjunct2, THEN conjunct2]
  then have "distinct [0, 2::nat] \<and> set [0, 2::nat] \<subseteq> set (?fronts ! m) \<and>
                   length [0, 2::nat] = pop_size small_MODE - length (concat (take m ?fronts)) \<longrightarrow>
                 (\<exists>g2 A2 g2'. valid_rng g2 \<and>
                    MODE_advance small_MODE small_infills g2 = Inr (A2, g2') \<and>
                    pop A2 = map (\<lambda>i. ?pool ! i) (concat (take m ?fronts) @ [0, 2]))"
    by (rule spec)
  then have reach: "\<exists>g2 A2 g2'. valid_rng g2 \<and>
                    MODE_advance small_MODE small_infills g2 = Inr (A2, g2') \<and>
                    pop A2 = [pop small_MODE ! 0, small_infills ! 0]"
    unfolding small_MODE_fronts m
    by (simp add: Population_merge_def small_MODE_def small_infills_def)
  from small_MODE_selection r
  have "pop A' = [small_infills ! 1, small_infills ! 0]" and "cursor g' = 1"
    by simp_all
  with valid_fixed_rng h p r l reach show ?thesis
    by simp
qed

section \<open>Domination and non-finite objective values\<close>

lemma fle_NaN [simp]: "\<not> fle NaN y" "\<not> fle x NaN"
  by (cases y; simp) (cases x; simp)

lemma dominate_NaN:
  assumes len: "length (F a) = length (F b)"
    and nan: "NaN \<in> set (F a) \<or> NaN \<in> set (F b)"
  shows "\<not> dominate a b"
proof -
  from nan len obtain i where i: "i < length (F a)" "i < length (F b)"
    and v: "F a ! i = NaN \<or> F b ! i = NaN"
    by (auto simp: in_set_conv_nth)
  then have "(F a ! i, F b ! i) \<in> set (zip (F a) (F b))"
    by (auto simp: set_zip)
  moreover from v have "\<not> fle (F a ! i) (F b ! i)"
    by auto
  ultimately have "\<not> list_all (\<lambda>(x, y). fle x y) (zip (F a) (F b))"
    by (auto simp: list_all_iff)
  then show ?thesis
    by (simp add: dominate_def)
qed


section \<open>Personal and global bests of MOPSO\<close>

lemma update_pbest_result:
  assumes "distinct idx" and "\<forall>i\<in>set idx. i < length p \<and> i < length pb"
  shows "\<exists>pb'. update_pbest p pb idx = Inr pb' \<and> length pb' = length pb \<and>
           (\<forall>i<length pb. pb' ! i = (if i \<in> set idx \<and> dominate (p ! i) (pb ! i)
                                      then p ! i else pb ! i))"
  using assms
proof (induction idx arbitrary: pb)
  case Nil
  then show ?case by simp
next
  case (Cons i rest)
  let ?pb1 = "if dominate (p ! i) (pb ! i) then pb[i := p ! i] else pb"
  have len1: "length ?pb1 = length pb"
    by simp
  have i: "i < length p" "i < length pb" "i \<notin> set rest" "distinct rest"
    using Cons.prems by auto
  have "\<forall>j\<in>set rest. j < length p \<and> j < length ?pb1"
    using Cons.prems by auto
  from Cons.IH [OF i(4) this] obtain pb' where
    r: "update_pbest p ?pb1 rest = Inr pb'" and l: "length pb' = length ?pb1"
    and v: "\<forall>j<length ?pb1. pb' ! j = (if j \<in> set rest \<and> dominate (p ! j) (?pb1 ! j)
                                      then p ! j else ?pb1 ! j)"
    by blast
  have "update_pbest p pb (i # rest) = Inr pb'"
    using i r by simp
  moreover have "length pb' = length pb"
    using l by simp
  moreover have "pb' ! j = (if j \<in> set (i # rest) \<and> dominate (p ! j) (pb ! j)
                                      then p ! j else pb ! j)" if j: "j < length pb" for j
  proof (cases "j = i")
    case True
    with v j i show ?thesis by simp
  next
    case False
    then have "?pb1 ! j = pb ! j" by simp
    with v j False show ?thesis by simp
  qed
  ultimately show ?case
    by blast
qed

lemma update_pbest_range:
  assumes "n \<le> length p" and "n \<le> length pb"
  shows "\<exists>pb'. update_pbest p pb [0..<n] = Inr pb' \<and> length pb' = length pb \<and>
           (\<forall>i<n. pb' ! i = (if dominate (p ! i) (pb ! i) then p ! i else pb ! i)) \<and>
           (\<forall>i<length pb. n \<le> i \<longrightarrow> pb' ! i = pb ! i)"
proof -
  have "distinct [0..<n]" and "\<forall>i\<in>set [0..<n]. i < length p \<and> i < length pb"
    using assms by auto
  from update_pbest_result [OF this] obtain pb' where
    r: "update_pbest p pb [0..<n] = Inr pb'" and l: "length pb' = length pb"
    and v: "\<forall>i<length pb. pb' ! i = (if i \<in> set [0..<n] \<and> dominate (p ! i) (pb ! i)
                                      then p ! i else pb ! i)"
    by blast
  from v assms have "\<forall>i<n. pb' ! i = (if dominate (p ! i) (pb ! i) then p ! i else pb ! i)"
    by simp
  moreover from v have "\<forall>i<length pb. n \<le> i \<longrightarrow> pb' ! i = pb ! i"
    by simp
  ultimately show ?thesis
    using r l by blast
qed

lemma non_dominated_eq:
  "non_dominated p = map (\<lambda>i. p ! i) (zero_count (map F p) [0..<length p])"
  by (simp add: non_dominated_def NonDominatedSorting_first_def Let_def)


lemma non_dominated_member:
  assumes "x \<in> set (non_dominated p)"
  shows "x \<in> set p" and "\<forall>q\<in>set p. \<not> pareto_dominates (F q) (F x)"
proof -
  from assms obtain i where i: "i \<in> set (zero_count (map F p) [0..<length p])" and x: "x = p ! i"
    by (auto simp: non_dominated_eq)
  from i have il: "i < length p"
    and nd: "\<forall>j<length p. \<not> pareto_dominates (map F p ! j) (map F p ! i)"
    by (auto simp: zero_count_def list_ex_iff)
  from il x show "x \<in> set p"
    by simp
  show "\<forall>q\<in>set p. \<not> pareto_dominates (F q) (F x)"
  proof
    fix q
    assume "q \<in> set p"
    then obtain j where j: "j < length p" "q = p ! j"
      by (auto simp: in_set_conv_nth)
    with nd il x show "\<not> pareto_dominates (F q) (F x)"
      by auto
  qed
qed

lemma MOPSO_advance_Inr:
  assumes "update_pbest infills (pbest A) [0..<pop_size A] = Inr pb"
  shows "MOPSO_advance A infills g =
           (if non_dominated pb \<noteq> []
            then Inr (A\<lparr>pop := infills, pbest := pb,
                        gbest := non_dominated pb ! integer g (cursor g) (length (non_dominated pb))\<rparr>,
                      advance_rng 1 g)
            else Inr (A\<lparr>pop := infills, pbest := pb\<rparr>, g))"
  using assms by (simp add: MOPSO_advance_def np_random_randint_def Let_def)

lemma MOPSO_advance_pbest:
  assumes "pop_size A \<le> length infills" and "pop_size A \<le> length (pbest A)"
  shows "\<exists>A' g'. MOPSO_advance A infills g = Inr (A', g') \<and>
           pop A' = infills \<and> pop_size A' = pop_size A \<and> problem A' = problem A \<and>
           velocities A' = velocities A \<and>
           length (pbest A') = length (pbest A) \<and>
           (\<forall>i<pop_size A. pbest A' ! i =
              (if dominate (infills ! i) (pbest A ! i) then infills ! i else pbest A ! i))"
proof -
  from update_pbest_range [OF assms] obtain pb where
    r: "update_pbest infills (pbest A) [0..<pop_size A] = Inr pb"
    and l: "length pb = length (pbest A)"
    and v: "\<forall>i<pop_size A. pb ! i =
              (if dominate (infills ! i) (pbest A ! i) then infills ! i else pbest A ! i)"
    by blast
  show ?thesis
  proof (cases "non_dominated pb \<noteq> []")
    case True
    with MOPSO_advance_Inr [OF r, of g] l v show ?thesis
      by simp
  next
    case False
    with MOPSO_advance_Inr [OF r, of g] l v show ?thesis
      by simp
  qed
qed

lemma length_np_random_random_shape:
  "length (fst (np_random_random_shape (2, P, N) g) ! 0) = P"
  "length (fst (np_random_random_shape (2, P, N) g) ! 1) = P"
  by (simp_all add: np_random_random_shape_def upt_rec [of 0 2] upt_rec [of 1 2])

lemma MOPSO_infill_shape:
  assumes "MOPSO_shape A" and "MOPSO_infill A g = ((off, A1), g1)"
  shows "length off = pop_size A" and "length (velocities A1) = pop_size A"
    and "pop A1 = pop A" and "pbest A1 = pbest A" and "pop_size A1 = pop_size A"
    and "problem A1 = problem A"
proof -
  obtain r g' where r: "np_random_random_shape (2, pop_size A, n_var (problem A)) g = (r, g')"
    by (cases "np_random_random_shape (2, pop_size A, n_var (problem A)) g")
  with length_np_random_random_shape [of "pop_size A" "n_var (problem A)" g]
  have lr: "length (r ! 0) = pop_size A" "length (r ! 1) = pop_size A"
    by simp_all
  from assms(1) have sh: "length (pop A) = pop_size A" "length (velocities A) = pop_size A"
    "length (pbest A) = pop_size A"
    by (simp_all add: MOPSO_shape_def)
  from assms(2) r have off: "off = Population_new (np_clip (mat_add (map X (pop A)) (velocities A1))
                                 (xl (problem A)) (xu (problem A)))"
    and A1: "A1 = A\<lparr>velocities := velocities A1\<rparr>"
    and vel: "velocities A1 = mat_add
                      (mat_add (mat_scale (w A) (velocities A))
                               (mat_mul (mat_scale (c1 A) (r ! 0)) (mat_sub (map X (pbest A)) (map X (pop A)))))
                      (mat_mul (mat_scale (c2 A) (r ! 1)) (row_sub_mat (X (gbest A)) (map X (pop A))))"
    by (auto simp: MOPSO_infill_def Let_def)
  from vel lr sh show lv: "length (velocities A1) = pop_size A"
    by (simp add: mat_add_def mat_sub_def mat_mul_def mat_scale_def row_sub_mat_def)
  with off sh show "length off = pop_size A"
    by (simp add: Population_new_def np_clip_def mat_add_def)
  from A1 show "pop A1 = pop A" and "pbest A1 = pbest A" and "pop_size A1 = pop_size A"
    and "problem A1 = problem A"
    by (metis MOPSO.select_convs MOPSO.surjective MOPSO.update_convs Algorithm.select_convs)+
qed

lemma MOPSO_next_pbest:
  assumes "MOPSO_shape A"
  shows "\<exists>A' g'. MOPSO_next A g = Inr (A', g') \<and> MOPSO_shape A' \<and>
           pop_size A' = pop_size A \<and>
           (\<forall>i<pop_size A. pbest A' ! i =
              (if dominate (pop A' ! i) (pbest A ! i) then pop A' ! i else pbest A ! i))"
proof -
  obtain off A1 g1 where i: "MOPSO_infill A g = ((off, A1), g1)"
    by (metis surj_pair)
  note s = MOPSO_infill_shape [OF assms i]
  let ?inf = "evaluate_pop (problem A1) off"
  from assms have lp: "length (pbest A) = pop_size A"
    by (simp add: MOPSO_shape_def)
  have a: "pop_size A1 \<le> length ?inf" "pop_size A1 \<le> length (pbest A1)"
    using s lp by (simp_all add: evaluate_pop_def)
  from MOPSO_advance_pbest [OF a, of g1] obtain A' g' where
    r: "MOPSO_advance A1 ?inf g1 = Inr (A', g')"
    and p: "pop A' = ?inf" "pop_size A' = pop_size A1" "velocities A' = velocities A1"
      "length (pbest A') = length (pbest A1)"
    and v: "\<forall>i<pop_size A1. pbest A' ! i =
              (if dominate (?inf ! i) (pbest A1 ! i) then ?inf ! i else pbest A1 ! i)"
    by blast
  have "MOPSO_next A g = Inr (A', g')"
    using i r by (simp add: MOPSO_next_def)
  moreover have "MOPSO_shape A'"
    using p s lp by (simp add: MOPSO_shape_def evaluate_pop_def)
  ultimately show ?thesis
    using p v s by simp
qed

lemma swarm1_shape: "MOPSO_shape swarm1"
  by (simp add: MOPSO_shape_def swarm1_def swarm0_def swarm_start_def)

lemma valid_rng_integer_update:
  assumes "valid_rng g"
  shows "valid_rng (g\<lparr>integer := (\<lambda>t n. if r < n then r else 0)\<rparr>)"
  using assms by (simp add: valid_rng_def)

text \<open>Claim C5: in every generation of a run, and for every member \<open>i\<close>, the personal
  best of \<open>i\<close> after the generation is the newly evaluated candidate \<open>i\<close> (the new
  population's member \<open>i\<close>) if that candidate dominates the old personal best under
  \<^verbatim>\<open>MOPSO.dominate\<close> (at most as large in every objective, strictly smaller in one),
  and is the old personal best otherwise. So a personal best only ever changes to a
  candidate that dominates its previous value. A run of \<open>n\<close> generations from a
  well-shaped swarm always returns; \<open>tr\<close> lists the algorithm before the first
  generation and after each one.\<close>

theorem MOPSO_run_pbest:
  assumes "MOPSO_shape A"
  shows "\<exists>tr g'. MOPSO_run n A g = Inr (tr, g') \<and> length tr = Suc n \<and> tr ! 0 = A \<and>
           (\<forall>t<n. \<forall>i<pop_size A.
              pbest (tr ! Suc t) ! i =
                (if dominate (pop (tr ! Suc t) ! i) (pbest (tr ! t) ! i)
                 then pop (tr ! Suc t) ! i else pbest (tr ! t) ! i))"
  using assms
proof (induction n arbitrary: A g)
  case 0
  then show ?case by simp
next
  case (Suc n)
  from MOPSO_next_pbest [OF Suc.prems, of g] obtain A1 g1 where
    nx: "MOPSO_next A g = Inr (A1, g1)" and sh: "MOPSO_shape A1"
    and ps: "pop_size A1 = pop_size A"
    and v: "\<forall>i<pop_size A. pbest A1 ! i =
              (if dominate (pop A1 ! i) (pbest A ! i) then pop A1 ! i else pbest A ! i)"
    by blast
  from Suc.IH [OF sh, of g1] obtain tr g2 where
    r: "MOPSO_run n A1 g1 = Inr (tr, g2)" and l: "length tr = Suc n" and h: "tr ! 0 = A1"
    and w: "\<forall>t<n. \<forall>i<pop_size A1.
              pbest (tr ! Suc t) ! i =
                (if dominate (pop (tr ! Suc t) ! i) (pbest (tr ! t) ! i)
                 then pop (tr ! Suc t) ! i else pbest (tr ! t) ! i)"
    by blast
  have "MOPSO_run (Suc n) A g = Inr (A # tr, g2)"
    using nx r by simp
  moreover have "length (A # tr) = Suc (Suc n)" and "(A # tr) ! 0 = A"
    using l by simp_all
  moreover have "pbest ((A # tr) ! Suc t) ! i =
                (if dominate (pop ((A # tr) ! Suc t) ! i) (pbest ((A # tr) ! t) ! i)
                 then pop ((A # tr) ! Suc t) ! i else pbest ((A # tr) ! t) ! i)"
    if t: "t < Suc n" and i: "i < pop_size A" for t i
  proof (cases t)
    case 0
    with v i h show ?thesis by simp
  next
    case (Suc t')
    with t have "t' < n" by simp
    with w i ps Suc show ?thesis by simp
  qed
  ultimately show ?case
    by blast
qed

lemma swarm2_shape: "MOPSO_shape swarm2"
  by (simp add: MOPSO_shape_def swarm2_def swarm1_def swarm0_def swarm_start_def)

lemma swarm2_generation:
  "(case MOPSO_run 1 swarm2 fixed_rng of
      Inr (tr, g') \<Rightarrow> map F (pop (tr ! 1))
    | Inl e \<Rightarrow> [])
   = [[Finite 0, Finite 0, Finite 0], [Finite 0, Finite 0, Finite 0]]"
  by code_simp

theorem MOPSO_run_pbest_witness:
  "MOPSO_shape swarm2 \<and>
   (\<exists>tr g'. MOPSO_run 1 swarm2 fixed_rng = Inr (tr, g') \<and> length tr = 2 \<and> tr ! 0 = swarm2 \<and>
      dominate (pop (tr ! 1) ! 0) (pbest (tr ! 0) ! 0) \<and>
      pbest (tr ! 1) ! 0 = pop (tr ! 1) ! 0 \<and>
      \<not> dominate (pop (tr ! 1) ! 1) (pbest (tr ! 0) ! 1) \<and>
      pbest (tr ! 1) ! 1 = pbest (tr ! 0) ! 1)"
proof -
  from MOPSO_run_pbest [OF swarm2_shape, of 1 fixed_rng]
  obtain tr g' where r: "MOPSO_run 1 swarm2 fixed_rng = Inr (tr, g')" and l: "length tr = Suc 1"
    and h: "tr ! 0 = swarm2"
    and v: "\<forall>t<1. \<forall>i<pop_size swarm2.
              pbest (tr ! Suc t) ! i =
                (if dominate (pop (tr ! Suc t) ! i) (pbest (tr ! t) ! i)
                 then pop (tr ! Suc t) ! i else pbest (tr ! t) ! i)"
    by blast
  have ps: "pop_size swarm2 = 2"
    by (simp add: swarm2_def swarm1_def swarm0_def)
  from v ps have v0: "pbest (tr ! Suc 0) ! 0 =
                (if dominate (pop (tr ! Suc 0) ! 0) (pbest (tr ! 0) ! 0)
                 then pop (tr ! Suc 0) ! 0 else pbest (tr ! 0) ! 0)"
    and v1: "pbest (tr ! Suc 0) ! Suc 0 =
                (if dominate (pop (tr ! Suc 0) ! Suc 0) (pbest (tr ! 0) ! Suc 0)
                 then pop (tr ! Suc 0) ! Suc 0 else pbest (tr ! 0) ! Suc 0)"
    by simp_all
  from swarm2_generation r
  have "map F (pop (tr ! Suc 0)) = [[Finite 0, Finite 0, Finite 0], [Finite 0, Finite 0, Finite 0]]"
    by simp
  then have new: "F (pop (tr ! Suc 0) ! 0) = [Finite 0, Finite 0, Finite 0]"
    "F (pop (tr ! Suc 0) ! Suc 0) = [Finite 0, Finite 0, Finite 0]"
    by (cases "pop (tr ! Suc 0)"; cases "tl (pop (tr ! Suc 0))"; auto)+
  have old: "F (pbest (tr ! 0) ! 0) = [Finite 0, Finite (3 / 100), Finite (1 / 100)]"
    "F (pbest (tr ! 0) ! Suc 0) = [Finite 0, Finite 0, Finite 0]"
    by (simp_all add: h swarm2_def swarm1_def swarm0_def swarm_start_def)
  have d0: "dominate (pop (tr ! Suc 0) ! 0) (pbest (tr ! 0) ! 0)"
    and d1: "\<not> dominate (pop (tr ! Suc 0) ! Suc 0) (pbest (tr ! 0) ! Suc 0)"
    by (simp_all add: dominate_def new old)
  from swarm2_shape r l h d0 d1 v0 v1 show ?thesis
    by simp
qed

lemma swarm3_shape: "MOPSO_shape swarm3"
  by (simp add: MOPSO_shape_def swarm3_def swarm2_def swarm1_def swarm0_def swarm_start_def)

lemma swarm3_generation:
  "(case MOPSO_run 1 swarm3 fixed_rng of
      Inr (tr, g') \<Rightarrow> map F (pop (tr ! 1))
    | Inl e \<Rightarrow> [])
   = [[Finite 0, Finite 0, Finite 0], [Finite 0, Finite 0, Finite 0]]"
  by code_simp

text \<open>Claim C8, as the code has it: a candidate with a NaN objective is not treated as
  dominated by everything. Every comparison with NaN is false, so
  \<^verbatim>\<open>MOPSO.dominate\<close> answers False in both directions whenever either objective
  vector holds a NaN, and raises nothing. In every generation of a run the personal-best
  loop of \<^verbatim>\<open>MOPSO._advance\<close> therefore leaves the personal best of member \<open>i\<close> as
  it is when the new candidate \<open>i\<close> or the personal best itself holds a NaN: such a
  candidate never becomes a personal best, and a personal best holding a NaN is never
  replaced. The run is not aborted: whatever the evaluation produces, a run of \<open>n\<close>
  generations from a well-shaped swarm returns.\<close>

theorem NaN_candidate_incomparable:
  assumes "MOPSO_shape A"
  shows "(length (F a) = length (F b) \<and> (NaN \<in> set (F a) \<or> NaN \<in> set (F b)) \<longrightarrow>
            \<not> dominate a b \<and> \<not> dominate b a) \<and>
         (\<exists>tr g'. MOPSO_run n A g = Inr (tr, g') \<and> length tr = Suc n \<and> tr ! 0 = A \<and>
            (\<forall>t<n. \<forall>i<pop_size A.
               length (F (pop (tr ! Suc t) ! i)) = length (F (pbest (tr ! t) ! i)) \<and>
               (NaN \<in> set (F (pop (tr ! Suc t) ! i)) \<or> NaN \<in> set (F (pbest (tr ! t) ! i))) \<longrightarrow>
                 \<not> dominate (pop (tr ! Suc t) ! i) (pbest (tr ! t) ! i) \<and>
                 pbest (tr ! Suc t) ! i = pbest (tr ! t) ! i))"
proof
  show "length (F a) = length (F b) \<and> (NaN \<in> set (F a) \<or> NaN \<in> set (F b)) \<longrightarrow>
            \<not> dominate a b \<and> \<not> dominate b a"
    using dominate_NaN [of a b] dominate_NaN [of b a] by auto
  show "\<exists>tr g'. MOPSO_run n A g = Inr (tr, g') \<and> length tr = Suc n \<and> tr ! 0 = A \<and>
            (\<forall>t<n. \<forall>i<pop_size A.
               length (F (pop (tr ! Suc t) ! i)) = length (F (pbest (tr ! t) ! i)) \<and>
               (NaN \<in> set (F (pop (tr ! Suc t) ! i)) \<or> NaN \<in> set (F (pbest (tr ! t) ! i))) \<longrightarrow>
                 \<not> dominate (pop (tr ! Suc t) ! i) (pbest (tr ! t) ! i) \<and>
                 pbest (tr ! Suc t) ! i = pbest (tr ! t) ! i)"
    using assms
  proof (induction n arbitrary: A g)
    case 0
    then show ?case by simp
  next
    case (Suc n)
    from MOPSO_next_pbest [OF Suc.prems, of g] obtain A1 g1 where
      nx: "MOPSO_next A g = Inr (A1, g1)" and sh: "MOPSO_shape A1"
      and ps: "pop_size A1 = pop_size A"
      and v: "\<forall>i<pop_size A. pbest A1 ! i =
                (if dominate (pop A1 ! i) (pbest A ! i) then pop A1 ! i else pbest A ! i)"
      by blast
    from Suc.IH [OF sh, of g1] obtain tr g2 where
      r: "MOPSO_run n A1 g1 = Inr (tr, g2)" and l: "length tr = Suc n" and h: "tr ! 0 = A1"
      and w: "\<forall>t<n. \<forall>i<pop_size A1.
               length (F (pop (tr ! Suc t) ! i)) = length (F (pbest (tr ! t) ! i)) \<and>
               (NaN \<in> set (F (pop (tr ! Suc t) ! i)) \<or> NaN \<in> set (F (pbest (tr ! t) ! i))) \<longrightarrow>
                 \<not> dominate (pop (tr ! Suc t) ! i) (pbest (tr ! t) ! i) \<and>
                 pbest (tr ! Suc t) ! i = pbest (tr ! t) ! i"
      by blast
    have "MOPSO_run (Suc n) A g = Inr (A # tr, g2)"
      using nx r by simp
    moreover have "length (A # tr) = Suc (Suc n)" and "(A # tr) ! 0 = A"
      using l by simp_all
    moreover have "\<not> dominate (pop ((A # tr) ! Suc t) ! i) (pbest ((A # tr) ! t) ! i) \<and>
                   pbest ((A # tr) ! Suc t) ! i = pbest ((A # tr) ! t) ! i"
      if t: "t < Suc n" and i: "i < pop_size A"
        and len: "length (F (pop ((A # tr) ! Suc t) ! i)) = length (F (pbest ((A # tr) ! t) ! i))"
        and nan: "NaN \<in> set (F (pop ((A # tr) ! Suc t) ! i)) \<or>
                  NaN \<in> set (F (pbest ((A # tr) ! t) ! i))"
      for t i
    proof (cases t)
      case 0
      with len nan h have "length (F (pop A1 ! i)) = length (F (pbest A ! i))"
        and "NaN \<in> set (F (pop A1 ! i)) \<or> NaN \<in> set (F (pbest A ! i))"
        by simp_all
      then have "\<not> dominate (pop A1 ! i) (pbest A ! i)"
        by (rule dominate_NaN)
      with v i 0 h show ?thesis by simp
    next
      case (Suc t')
      with t have "t' < n" by simp
      with w i ps Suc len nan show ?thesis by simp
    qed
    ultimately show ?case
      by blast
  qed
qed

theorem NaN_candidate_incomparable_witness:
  "MOPSO_shape swarm3 \<and>
   length (F \<lparr>X = [0], F = [Finite 0, Finite 0]\<rparr>) = length (F \<lparr>X = [1], F = [NaN, Finite 1]\<rparr>) \<and>
   NaN \<in> set (F \<lparr>X = [1], F = [NaN, Finite 1]\<rparr>) \<and>
   \<not> dominate \<lparr>X = [0], F = [Finite 0, Finite 0]\<rparr> \<lparr>X = [1], F = [NaN, Finite 1]\<rparr> \<and>
   \<not> dominate \<lparr>X = [1], F = [NaN, Finite 1]\<rparr> \<lparr>X = [0], F = [Finite 0, Finite 0]\<rparr> \<and>
   (\<exists>tr g'. MOPSO_run 1 swarm3 fixed_rng = Inr (tr, g') \<and> length tr = 2 \<and> tr ! 0 = swarm3 \<and>
      F (pop (tr ! 1) ! 0) = [Finite 0, Finite 0, Finite 0] \<and>
      F (pbest (tr ! 0) ! 0) = [NaN, Finite (3/100), Finite (1/100)] \<and>
      pbest (tr ! 1) ! 0 = pbest (tr ! 0) ! 0)"
proof -
  let ?a = "\<lparr>X = [0], F = [Finite 0, Finite 0]\<rparr>" and ?b = "\<lparr>X = [1], F = [NaN, Finite 1]\<rparr>"
  from NaN_candidate_incomparable [OF swarm3_shape, of ?a ?b 1 fixed_rng]
  have pair: "\<not> dominate ?a ?b \<and> \<not> dominate ?b ?a"
    by simp
  from NaN_candidate_incomparable [OF swarm3_shape, of ?a ?b 1 fixed_rng]
  obtain tr g' where r: "MOPSO_run 1 swarm3 fixed_rng = Inr (tr, g')" and l: "length tr = Suc 1"
    and h: "tr ! 0 = swarm3"
    and v: "\<forall>t<1. \<forall>i<pop_size swarm3.
               length (F (pop (tr ! Suc t) ! i)) = length (F (pbest (tr ! t) ! i)) \<and>
               (NaN \<in> set (F (pop (tr ! Suc t) ! i)) \<or> NaN \<in> set (F (pbest (tr ! t) ! i))) \<longrightarrow>
                 \<not> dominate (pop (tr ! Suc t) ! i) (pbest (tr ! t) ! i) \<and>
                 pbest (tr ! Suc t) ! i = pbest (tr ! t) ! i"
    by blast
  have ps: "pop_size swarm3 = 2"
    by (simp add: swarm3_def swarm2_def swarm1_def swarm0_def)
  from v ps have v0:
    "length (F (pop (tr ! Suc 0) ! 0)) = length (F (pbest (tr ! 0) ! 0)) \<and>
     (NaN \<in> set (F (pop (tr ! Suc 0) ! 0)) \<or> NaN \<in> set (F (pbest (tr ! 0) ! 0))) \<longrightarrow>
       pbest (tr ! Suc 0) ! 0 = pbest (tr ! 0) ! 0"
    by simp
  from swarm3_generation r
  have "map F (pop (tr ! Suc 0)) = [[Finite 0, Finite 0, Finite 0], [Finite 0, Finite 0, Finite 0]]"
    by simp
  then have new: "F (pop (tr ! Suc 0) ! 0) = [Finite 0, Finite 0, Finite 0]"
    by (cases "pop (tr ! Suc 0)"; cases "tl (pop (tr ! Suc 0))"; auto)
  have old: "F (pbest (tr ! 0) ! 0) = [NaN, Finite (3 / 100), Finite (1 / 100)]"
    by (simp add: h swarm3_def swarm2_def swarm1_def swarm0_def swarm_start_def)
  from v0 new old have "pbest (tr ! Suc 0) ! 0 = pbest (tr ! 0) ! 0"
    by simp
  with swarm3_shape pair r l h new old show ?thesis
    by simp
qed

text \<open>Claim C8 as stated fails in \<^verbatim>\<open>MOPSO.dominate\<close> and in the personal-best loop
  built on it: a finite candidate does not dominate one with a NaN objective although it
  is smaller in the other objective, so a personal best holding NaN survives the better
  newcomer; and a candidate with an infinite objective is not dominated by one that is
  worse elsewhere.\<close>

theorem NaN_candidate_not_dominated:
  "\<not> dominate \<lparr>X = [0], F = [Finite 0, Finite 0]\<rparr> \<lparr>X = [1], F = [NaN, Finite 1]\<rparr> \<and>
   update_pbest [\<lparr>X = [0], F = [Finite 0, Finite 0]\<rparr>] [\<lparr>X = [1], F = [NaN, Finite 1]\<rparr>] [0..<1]
     = Inr [\<lparr>X = [1], F = [NaN, Finite 1]\<rparr>] \<and>
   \<not> dominate \<lparr>X = [0], F = [Finite 1, Finite 1]\<rparr> \<lparr>X = [1], F = [PosInf, Finite 0]\<rparr>"
  by code_simp



text \<open>Claim C10: \<^verbatim>\<open>MOPSO._initialize_advance\<close> sets every velocity to the zero
  vector, makes the personal bests a copy of the initial population, and sets the global
  best to the member of the whole initial population at the position the generator draws
  below \<open>pop_size\<close>. Every member is the initial global best for some answer of the
  generator, a dominated one included, unlike the per-generation reselection of claim
  C4.\<close>

theorem MOPSO_initialize_advance_state:
  assumes g: "valid_rng g" and n: "0 < pop_size A" and l: "length infills = pop_size A"
  shows "\<exists>A' g'. MOPSO_initialize_advance A infills g = Inr (A', g') \<and>
           pop A' = infills \<and>
           velocities A' = replicate (pop_size A) (replicate (n_var (problem A)) 0) \<and>
           pbest A' = infills \<and>
           (let r = integer g (cursor g) (pop_size A)
            in r < pop_size A \<and> gbest A' = infills ! r) \<and>
           (\<forall>r<pop_size A. \<exists>g2 A2 g2'. valid_rng g2 \<and>
              MOPSO_initialize_advance A infills g2 = Inr (A2, g2') \<and> gbest A2 = infills ! r)"
proof -
  have run: "MOPSO_initialize_advance A infills h =
               Inr (A\<lparr>pop := infills,
                      velocities := np_zeros (pop_size A, n_var (problem A)),
                      pbest := infills,
                      gbest := infills ! integer h (cursor h) (pop_size A)\<rparr>, advance_rng 1 h)"
    if "valid_rng h" for h
    using that n l valid_rng_integer [of h "pop_size A" "cursor h"]
    by (simp add: MOPSO_initialize_advance_def np_random_randint_def)
  have any: "\<exists>g2 A2 g2'. valid_rng g2 \<and>
              MOPSO_initialize_advance A infills g2 = Inr (A2, g2') \<and> gbest A2 = infills ! r"
    if r: "r < pop_size A" for r
  proof -
    let ?g2 = "g\<lparr>integer := (\<lambda>t n. if r < n then r else 0)\<rparr>"
    have v: "valid_rng ?g2"
      using g by (rule valid_rng_integer_update)
    from run [OF v] r show ?thesis
      using v by (intro exI [of _ ?g2]) simp
  qed
  from run [OF g] valid_rng_integer [OF g n, of "cursor g"] any show ?thesis
    by (simp add: np_zeros_def Let_def)
qed

theorem MOPSO_initialize_advance_state_witness:
  "valid_rng fixed_rng \<and> 0 < pop_size swarm0 \<and> length swarm_start = pop_size swarm0 \<and>
   (\<exists>A' g'. MOPSO_initialize_advance swarm0 swarm_start fixed_rng = Inr (A', g') \<and>
      velocities A' = [[0, 0, 0], [0, 0, 0]] \<and> pbest A' = swarm_start \<and>
      gbest A' = swarm_start ! 0 \<and> dominate (swarm_start ! 1) (gbest A'))"
proof -
  have h: "0 < pop_size swarm0" "length swarm_start = pop_size swarm0"
    by (simp_all add: swarm0_def swarm_start_def)
  have d: "dominate (swarm_start ! 1) (swarm_start ! 0)"
    by code_simp
  have r: "integer fixed_rng (cursor fixed_rng) (pop_size swarm0) = 0"
    by (simp add: fixed_rng_def)
  have z: "replicate (pop_size swarm0) (replicate (n_var (problem swarm0)) (0::real)) = [[0, 0, 0], [0, 0, 0]]"
    by (simp add: swarm0_def ThreeDProblem_def numeral_2_eq_2 numeral_3_eq_3)
  from MOPSO_initialize_advance_state [OF valid_fixed_rng h]
  obtain A' g' where "MOPSO_initialize_advance swarm0 swarm_start fixed_rng = Inr (A', g')"
    and "velocities A' = replicate (pop_size swarm0) (replicate (n_var (problem swarm0)) 0)"
    and "pbest A' = swarm_start"
    and "gbest A' = swarm_start ! integer fixed_rng (cursor fixed_rng) (pop_size swarm0)"
    unfolding Let_def by blast
  with valid_fixed_rng h d r z show ?thesis
    by simp
qed

section \<open>Array arithmetic, cell by cell\<close>

lemma nth_vec_add: "k < length a \<Longrightarrow> k < length b \<Longrightarrow> vec_add a b ! k = a ! k + b ! k"
  by (simp add: vec_add_def)

lemma nth_vec_sub: "k < length a \<Longrightarrow> k < length b \<Longrightarrow> vec_sub a b ! k = a ! k - b ! k"
  by (simp add: vec_sub_def)

lemma nth_vec_mul: "k < length a \<Longrightarrow> k < length b \<Longrightarrow> vec_mul a b ! k = a ! k * b ! k"
  by (simp add: vec_mul_def)

lemma nth_vec_scale: "k < length a \<Longrightarrow> vec_scale c a ! k = c * a ! k"
  by (simp add: vec_scale_def)

lemma length_vec_ops [simp]:
  "length (vec_add a b) = min (length a) (length b)"
  "length (vec_sub a b) = min (length a) (length b)"
  "length (vec_mul a b) = min (length a) (length b)"
  "length (vec_scale c a) = length a"
  by (simp_all add: vec_add_def vec_sub_def vec_mul_def vec_scale_def)

lemma nth_mat_ops:
  "i < length A \<Longrightarrow> i < length B \<Longrightarrow> mat_add A B ! i = vec_add (A ! i) (B ! i)"
  "i < length A \<Longrightarrow> i < length B \<Longrightarrow> mat_sub A B ! i = vec_sub (A ! i) (B ! i)"
  "i < length A \<Longrightarrow> i < length B \<Longrightarrow> mat_mul A B ! i = vec_mul (A ! i) (B ! i)"
  "i < length A \<Longrightarrow> mat_scale c A ! i = vec_scale c (A ! i)"
  "i < length A \<Longrightarrow> row_sub_mat v A ! i = vec_sub v (A ! i)"
  by (simp_all add: mat_add_def mat_sub_def mat_mul_def mat_scale_def row_sub_mat_def)

lemma length_mat_ops [simp]:
  "length (mat_add A B) = min (length A) (length B)"
  "length (mat_sub A B) = min (length A) (length B)"
  "length (mat_mul A B) = min (length A) (length B)"
  "length (mat_scale c A) = length A"
  "length (row_sub_mat v A) = length A"
  by (simp_all add: mat_add_def mat_sub_def mat_mul_def mat_scale_def row_sub_mat_def)

lemma length_clip_row [simp]:
  "length (clip_row row lo hi) = min (length row) (min (length lo) (length hi))"
  by (simp add: clip_row_def)

lemma nth_clip_row:
  "k < length row \<Longrightarrow> k < length lo \<Longrightarrow> k < length hi \<Longrightarrow>
     clip_row row lo hi ! k = min (max (row ! k) (lo ! k)) (hi ! k)"
  by (simp add: clip_row_def)

lemma clip_row_bounds:
  assumes "k < length (clip_row row lo hi)" and "lo ! k \<le> hi ! k"
  shows "lo ! k \<le> clip_row row lo hi ! k \<and> clip_row row lo hi ! k \<le> hi ! k"
  using assms by (simp add: nth_clip_row)

lemma clip_within: "(lo::real) \<le> hi \<Longrightarrow> lo \<le> min (max x lo) hi \<and> min (max x lo) hi \<le> hi"
  by simp

lemma nth_random_shape:
  assumes "i < P" and "k < N"
  shows "fst (np_random_random_shape (2, P, N) g) ! 0 ! i ! k = uniform g (cursor g + i * N + k)"
    and "fst (np_random_random_shape (2, P, N) g) ! 1 ! i ! k = uniform g (cursor g + (P + i) * N + k)"
  using assms
  by (simp_all add: np_random_random_shape_def upt_rec [of 0 2] upt_rec [of 1 2])

lemma length_random_shape_rows:
  assumes "i < P"
  shows "length (fst (np_random_random_shape (2, P, N) g) ! 0 ! i) = N"
    and "length (fst (np_random_random_shape (2, P, N) g) ! 1 ! i) = N"
  using assms
  by (simp_all add: np_random_random_shape_def upt_rec [of 0 2] upt_rec [of 1 2])

lemma snd_random_shape:
  "snd (np_random_random_shape (d0, d1, d2) g) = advance_rng (d0 * d1 * d2) g"
  by (simp add: np_random_random_shape_def)

lemma advance_rng_fields [simp]:
  "uniform (advance_rng n g) = uniform g"
  "integer (advance_rng n g) = integer g"
  "shuffle (advance_rng n g) = shuffle g"
  "cursor (advance_rng n g) = cursor g + n"
  by (simp_all add: advance_rng_def)

lemma advance_rng_advance: "advance_rng m (advance_rng n g) = advance_rng (n + m) g"
  by (simp add: advance_rng_def add.assoc)

lemma advance_rng_0 [simp]: "advance_rng 0 g = g"
  by (simp add: advance_rng_def)

lemma map_upt_shift:
  "f 0 # map (\<lambda>p. f (Suc p)) [0..<n] = map f [0..<Suc n]"
  by (simp add: map_upt_Suc del: upt_Suc)

lemma in_boundsI:
  assumes "\<And>i. i < length inds \<Longrightarrow> length (X (inds ! i)) = n_var p"
    and "\<And>i k. i < length inds \<Longrightarrow> k < n_var p \<Longrightarrow>
           xl p ! k \<le> X (inds ! i) ! k \<and> X (inds ! i) ! k \<le> xu p ! k"
  shows "in_bounds p inds"
  using assms by (simp add: in_bounds_def list_all_length)

lemma ordered_boundsD: "ordered_bounds p \<Longrightarrow> k < n_var p \<Longrightarrow> xl p ! k \<le> xu p ! k"
  by (simp add: ordered_bounds_def list_all_length)

lemma ThreeDProblem_ordered: "ordered_bounds ThreeDProblem"
  by code_simp

section \<open>The velocity update of MOPSO\<close>

lemma MOPSO_infill_eq:
  "MOPSO_infill A g =
     (let Xm = map X (pop A);
          r = fst (np_random_random_shape (2, pop_size A, n_var (problem A)) g);
          vel = mat_add
                  (mat_add (mat_scale (w A) (velocities A))
                           (mat_mul (mat_scale (c1 A) (r ! 0)) (mat_sub (map X (pbest A)) Xm)))
                  (mat_mul (mat_scale (c2 A) (r ! 1)) (row_sub_mat (X (gbest A)) Xm))
      in ((Population_new (np_clip (mat_add Xm vel) (xl (problem A)) (xu (problem A))),
           A\<lparr>velocities := vel\<rparr>),
          advance_rng (2 * pop_size A * n_var (problem A)) g))"
  by (simp add: MOPSO_infill_def Let_def np_random_random_shape_def)

lemma MOPSO_infill_cells:
  assumes wf: "MOPSO_rows A"
  obtains off vel where
    "MOPSO_infill A g =
       ((off, A\<lparr>velocities := vel\<rparr>), advance_rng (2 * pop_size A * n_var (problem A)) g)"
    and "length off = pop_size A" and "length vel = pop_size A"
    and "\<And>i. i < pop_size A \<Longrightarrow>
           length (vel ! i) = n_var (problem A) \<and> length (X (off ! i)) = n_var (problem A)"
    and "\<And>i k. i < pop_size A \<Longrightarrow> k < n_var (problem A) \<Longrightarrow>
           vel ! i ! k =
             w A * (velocities A ! i ! k)
             + c1 A * uniform g (cursor g + i * n_var (problem A) + k)
                 * (X (pbest A ! i) ! k - X (pop A ! i) ! k)
             + c2 A * uniform g (cursor g + (pop_size A + i) * n_var (problem A) + k)
                 * (X (gbest A) ! k - X (pop A ! i) ! k)"
    and "\<And>i k. i < pop_size A \<Longrightarrow> k < n_var (problem A) \<Longrightarrow>
           X (off ! i) ! k =
             min (max (X (pop A ! i) ! k + vel ! i ! k) (xl (problem A) ! k)) (xu (problem A) ! k)"
proof -
  let ?P = "pop_size A" and ?N = "n_var (problem A)"
  define Xm where "Xm = map X (pop A)"
  define r where "r = fst (np_random_random_shape (2, ?P, ?N) g)"
  define t1 where "t1 = mat_scale (w A) (velocities A)"
  define t2 where "t2 = mat_mul (mat_scale (c1 A) (r ! 0)) (mat_sub (map X (pbest A)) Xm)"
  define t3 where "t3 = mat_mul (mat_scale (c2 A) (r ! 1)) (row_sub_mat (X (gbest A)) Xm)"
  define vel where "vel = mat_add (mat_add t1 t2) t3"
  define off where "off = Population_new (np_clip (mat_add Xm vel) (xl (problem A)) (xu (problem A)))"
  have inf: "MOPSO_infill A g = ((off, A\<lparr>velocities := vel\<rparr>), advance_rng (2 * ?P * ?N) g)"
    unfolding MOPSO_infill_eq off_def vel_def t1_def t2_def t3_def r_def Xm_def Let_def ..
  from wf have sh: "length Xm = ?P" "length (velocities A) = ?P" "length (pbest A) = ?P"
    and gb: "length (X (gbest A)) = ?N"
    and b: "length (xl (problem A)) = ?N" "length (xu (problem A)) = ?N"
    by (simp_all add: MOPSO_rows_def MOPSO_shape_def Xm_def)
  have lr: "length (r ! 0) = ?P" "length (r ! 1) = ?P"
    unfolding r_def by (rule length_np_random_random_shape)+
  have l1: "length t1 = ?P" and l2: "length t2 = ?P" and l3: "length t3 = ?P"
    using sh lr by (simp_all add: t1_def t2_def t3_def)
  have lvel: "length vel = ?P"
    using l1 l2 l3 by (simp add: vel_def)
  have loff: "length off = ?P"
    using sh lvel by (simp add: off_def Population_new_def np_clip_def)
  have row: "length (vel ! i) = ?N \<and> length (X (off ! i)) = ?N \<and>
      (\<forall>k<?N.
         vel ! i ! k =
             w A * (velocities A ! i ! k)
             + c1 A * uniform g (cursor g + i * ?N + k) * (X (pbest A ! i) ! k - X (pop A ! i) ! k)
             + c2 A * uniform g (cursor g + (?P + i) * ?N + k) * (X (gbest A) ! k - X (pop A ! i) ! k) \<and>
         X (off ! i) ! k =
             min (max (X (pop A ! i) ! k + vel ! i ! k) (xl (problem A) ! k)) (xu (problem A) ! k))"
    if i: "i < ?P" for i
  proof -
    from wf i sh have rows: "length (Xm ! i) = ?N" "length (X (pbest A ! i)) = ?N"
      "length (velocities A ! i) = ?N" and xi: "Xm ! i = X (pop A ! i)"
      by (simp_all add: MOPSO_rows_def list_all_length Xm_def)
    have lri: "length (r ! 0 ! i) = ?N" "length (r ! 1 ! i) = ?N"
      unfolding r_def using i by (rule length_random_shape_rows)+
    have t1i: "t1 ! i = vec_scale (w A) (velocities A ! i)"
      using i sh by (simp add: t1_def nth_mat_ops)
    have t2i: "t2 ! i = vec_mul (vec_scale (c1 A) (r ! 0 ! i)) (vec_sub (X (pbest A ! i)) (Xm ! i))"
      using i sh lr by (simp add: t2_def nth_mat_ops)
    have t3i: "t3 ! i = vec_mul (vec_scale (c2 A) (r ! 1 ! i)) (vec_sub (X (gbest A)) (Xm ! i))"
      using i sh lr by (simp add: t3_def nth_mat_ops)
    have lt: "length (t1 ! i) = ?N" "length (t2 ! i) = ?N" "length (t3 ! i) = ?N"
      using rows lri gb by (simp_all add: t1i t2i t3i)
    have veli: "vel ! i = vec_add (vec_add (t1 ! i) (t2 ! i)) (t3 ! i)"
      using i l1 l2 l3 by (simp add: vel_def nth_mat_ops)
    have lveli: "length (vel ! i) = ?N"
      using lt by (simp add: veli)
    have offi: "X (off ! i) = clip_row (vec_add (Xm ! i) (vel ! i)) (xl (problem A)) (xu (problem A))"
      using i sh lvel by (simp add: off_def Population_new_def np_clip_def nth_mat_ops)
    have loffi: "length (X (off ! i)) = ?N"
      using rows lveli b by (simp add: offi)
    have cell: "vel ! i ! k =
             w A * (velocities A ! i ! k)
             + c1 A * uniform g (cursor g + i * ?N + k) * (X (pbest A ! i) ! k - X (pop A ! i) ! k)
             + c2 A * uniform g (cursor g + (?P + i) * ?N + k) * (X (gbest A) ! k - X (pop A ! i) ! k) \<and>
         X (off ! i) ! k =
             min (max (X (pop A ! i) ! k + vel ! i ! k) (xl (problem A) ! k)) (xu (problem A) ! k)"
      if k: "k < ?N" for k
    proof -
      have r1: "r ! 0 ! i ! k = uniform g (cursor g + i * ?N + k)"
        and r2: "r ! 1 ! i ! k = uniform g (cursor g + (?P + i) * ?N + k)"
        unfolding r_def using i k by (rule nth_random_shape)+
      have t1k: "t1 ! i ! k = w A * (velocities A ! i ! k)"
        using k rows by (simp add: t1i nth_vec_scale)
      have t2k: "t2 ! i ! k = c1 A * uniform g (cursor g + i * ?N + k) * (X (pbest A ! i) ! k - Xm ! i ! k)"
        using k rows lri r1 by (simp add: t2i nth_vec_mul nth_vec_scale nth_vec_sub)
      have t3k: "t3 ! i ! k = c2 A * uniform g (cursor g + (?P + i) * ?N + k) * (X (gbest A) ! k - Xm ! i ! k)"
        using k rows lri gb r2 by (simp add: t3i nth_vec_mul nth_vec_scale nth_vec_sub)
      have velik: "vel ! i ! k = t1 ! i ! k + t2 ! i ! k + t3 ! i ! k"
        using k lt by (simp add: veli nth_vec_add)
      have offik: "X (off ! i) ! k
               = min (max (Xm ! i ! k + vel ! i ! k) (xl (problem A) ! k)) (xu (problem A) ! k)"
        using k lveli rows b by (simp add: offi nth_clip_row nth_vec_add)
      from velik t1k t2k t3k offik xi show ?thesis
        by simp
    qed
    with lveli loffi show ?thesis
      by blast
  qed
  show thesis
  proof (rule that [of off vel])
    show "MOPSO_infill A g = ((off, A\<lparr>velocities := vel\<rparr>), advance_rng (2 * ?P * ?N) g)"
      by (rule inf)
    show "length off = ?P" by (rule loff)
    show "length vel = ?P" by (rule lvel)
    show "length (vel ! i) = ?N \<and> length (X (off ! i)) = ?N" if "i < ?P" for i
      using row [OF that] by blast
    show "vel ! i ! k =
             w A * (velocities A ! i ! k)
             + c1 A * uniform g (cursor g + i * ?N + k) * (X (pbest A ! i) ! k - X (pop A ! i) ! k)
             + c2 A * uniform g (cursor g + (?P + i) * ?N + k) * (X (gbest A) ! k - X (pop A ! i) ! k)"
      if "i < ?P" and "k < ?N" for i k
      using row [OF that(1)] that(2) by blast
    show "X (off ! i) ! k =
             min (max (X (pop A ! i) ! k + vel ! i ! k) (xl (problem A) ! k)) (xu (problem A) ! k)"
      if "i < ?P" and "k < ?N" for i k
      using row [OF that(1)] that(2) by blast
  qed
qed

lemma swarm1_rows: "MOPSO_rows swarm1"
  by (simp add: MOPSO_rows_def MOPSO_shape_def swarm1_def swarm0_def swarm_start_def ThreeDProblem_def)

lemma cell_offset_bound:
  assumes "i < P" and "k < N"
  shows "i * N + k < P * (N::nat)"
proof -
  have "i * N + k < i * N + N"
    using assms(2) by simp
  also have "\<dots> = Suc i * N"
    by simp
  also have "\<dots> \<le> P * N"
    using assms(1) by (intro mult_le_mono1) simp
  finally show ?thesis .
qed

lemma cell_offset_inj:
  assumes "k < N" and "k' < N" and "i' * N + k' = i * N + (k::nat)"
  shows "i' = i \<and> k' = k"
proof -
  from assms(3) have "(i' * N + k') div N = (i * N + k) div N"
    and "(i' * N + k') mod N = (i * N + k) mod N"
    by simp_all
  with assms(1,2) show ?thesis
    by simp
qed

text \<open>Claim C3: in a generation of MOPSO, for every member \<open>i\<close> and coordinate \<open>k\<close>, the
  new velocity is \<open>w * velocity + c1 * r1 * (personal_best - position) + c2 * r2 *
  (global_best - position)\<close>, where \<open>w\<close>, \<open>c1\<close>, \<open>c2\<close> are the algorithm's scalars and
  \<open>r1\<close>, \<open>r2\<close> are the generator's uniform answers in [0,1) at two positions of the
  stream: \<open>r1\<close> at offset \<open>i * n_var + k\<close> among the first \<open>pop_size * n_var\<close> draws,
  \<open>r2\<close> at the same offset among the next \<open>pop_size * n_var\<close>, an offset no other member
  and coordinate shares. The offspring's position is position plus new velocity, clipped
  into \<open>[xl, xu]\<close> coordinate by coordinate.\<close>

theorem MOPSO_infill_update:
  assumes g: "valid_rng g" and wf: "MOPSO_rows A"
    and i: "i < pop_size A" and k: "k < n_var (problem A)"
  shows "case MOPSO_infill A g of
           ((off, A'), g') \<Rightarrow>
             (let N = n_var (problem A);
                  P = pop_size A;
                  r1 = uniform g (cursor g + (i * N + k));
                  r2 = uniform g (cursor g + P * N + (i * N + k));
                  x = X (pop A ! i) ! k;
                  v = w A * (velocities A ! i ! k)
                      + c1 A * r1 * (X (pbest A ! i) ! k - x)
                      + c2 A * r2 * (X (gbest A) ! k - x)
              in 0 \<le> r1 \<and> r1 < 1 \<and> 0 \<le> r2 \<and> r2 < 1 \<and>
                 i * N + k < P * N \<and>
                 (\<forall>i' k'. k' < N \<and> i' * N + k' = i * N + k \<longrightarrow> i' = i \<and> k' = k) \<and>
                 velocities A' ! i ! k = v \<and>
                 X (off ! i) ! k = min (max (x + v) (xl (problem A) ! k)) (xu (problem A) ! k) \<and>
                 g' = advance_rng (2 * P * N) g)"
proof (rule MOPSO_infill_cells [OF wf, of g])
  fix off vel
  assume inf: "MOPSO_infill A g =
       ((off, A\<lparr>velocities := vel\<rparr>), advance_rng (2 * pop_size A * n_var (problem A)) g)"
    and v: "\<And>i k. i < pop_size A \<Longrightarrow> k < n_var (problem A) \<Longrightarrow>
           vel ! i ! k =
             w A * (velocities A ! i ! k)
             + c1 A * uniform g (cursor g + i * n_var (problem A) + k)
                 * (X (pbest A ! i) ! k - X (pop A ! i) ! k)
             + c2 A * uniform g (cursor g + (pop_size A + i) * n_var (problem A) + k)
                 * (X (gbest A) ! k - X (pop A ! i) ! k)"
    and x: "\<And>i k. i < pop_size A \<Longrightarrow> k < n_var (problem A) \<Longrightarrow>
           X (off ! i) ! k =
             min (max (X (pop A ! i) ! k + vel ! i ! k) (xl (problem A) ! k)) (xu (problem A) ! k)"
  have vel: "velocities (A\<lparr>velocities := vel\<rparr>) = vel"
    by simp
  have p1: "cursor g + i * n_var (problem A) + k = cursor g + (i * n_var (problem A) + k)"
    and p2: "cursor g + (pop_size A + i) * n_var (problem A) + k
             = cursor g + pop_size A * n_var (problem A) + (i * n_var (problem A) + k)"
    by (simp_all add: algebra_simps)
  note u1 = valid_rng_uniform [OF g, of "cursor g + (i * n_var (problem A) + k)"]
  note u2 = valid_rng_uniform
              [OF g, of "cursor g + pop_size A * n_var (problem A) + (i * n_var (problem A) + k)"]
  note b = cell_offset_bound [OF i k]
  have inj: "\<forall>i' k'. k' < n_var (problem A) \<and>
               i' * n_var (problem A) + k' = i * n_var (problem A) + k \<longrightarrow> i' = i \<and> k' = k"
    using cell_offset_inj [OF k] by blast
  show ?thesis
    unfolding inf prod.case Let_def vel x [OF i k] v [OF i k] p1 p2
    using u1 u2 b inj by blast
qed

theorem MOPSO_infill_update_witness:
  "valid_rng fixed_rng \<and> MOPSO_rows swarm1 \<and> (1::nat) < pop_size swarm1 \<and>
   (0::nat) < n_var (problem swarm1) \<and>
   (case MOPSO_infill swarm1 fixed_rng of
      ((off, A'), g') \<Rightarrow> velocities A' ! 1 ! 0 = - (3 / 5) \<and> X (off ! 1) ! 0 = - (3 / 5))"
proof -
  have h: "1 < pop_size swarm1" "0 < n_var (problem swarm1)"
    by (simp_all add: swarm1_def swarm0_def ThreeDProblem_def)
  have x: "X (pop swarm1 ! Suc 0) ! 0 = 0" "X (pbest swarm1 ! Suc 0) ! 0 = 0"
    "X (gbest swarm1) ! 0 = - (3 / 5)"
    "velocities swarm1 ! Suc 0 ! 0 = 0" "w swarm1 = 9 / 10" "c1 swarm1 = 2" "c2 swarm1 = 2"
    "xl (problem swarm1) ! 0 = -5" "xu (problem swarm1) ! 0 = 5"
    by (simp_all add: swarm1_def swarm0_def swarm_start_def ThreeDProblem_def)
  have u: "uniform fixed_rng t = 1 / 2" for t
    by (simp add: fixed_rng_def)
  obtain off A' g' where e: "MOPSO_infill swarm1 fixed_rng = ((off, A'), g')"
    by (metis surj_pair)
  from MOPSO_infill_update [OF valid_fixed_rng swarm1_rows h]
  have "velocities A' ! 1 ! 0 = - (3 / 5) \<and> X (off ! 1) ! 0 = - (3 / 5)"
    unfolding e Let_def by (simp add: x u)
  with valid_fixed_rng swarm1_rows h show ?thesis
    by (simp add: e)
qed

section \<open>The variation step of MODE\<close>

lemma de_row_advance [simp]: "de_row A Xm (advance_rng n g) t i = de_row A Xm g t i"
  by (simp add: de_row_def)

lemma infill_dims_result:
  "infill_dims cr v xi j ks g =
     (map (\<lambda>p. if uniform g (cursor g + p) < cr \<or> ks ! p = j then v ! (ks ! p) else xi ! (ks ! p))
        [0..<length ks],
      advance_rng (length ks) g)"
proof (induction ks arbitrary: g)
  case Nil
  show ?case by simp
next
  case (Cons k ks)
  let ?f = "\<lambda>p. if uniform g (cursor g + p) < cr \<or> (k # ks) ! p = j
                 then v ! ((k # ks) ! p) else xi ! ((k # ks) ! p)"
  have "infill_dims cr v xi j (k # ks) g =
          (?f 0 # map (\<lambda>p. ?f (Suc p)) [0..<length ks], advance_rng (Suc (length ks)) g)"
    by (simp add: np_random_random_def Cons.IH advance_rng_advance)
  also have "?f 0 # map (\<lambda>p. ?f (Suc p)) [0..<length ks] = map ?f [0..<Suc (length ks)]"
    by (rule map_upt_shift)
  finally show ?case
    by simp
qed

lemma infill_dims_upt:
  "infill_dims cr v xi j [0..<N] g =
     (map (\<lambda>k. if uniform g (cursor g + k) < cr \<or> k = j then v ! k else xi ! k) [0..<N],
      advance_rng N g)"
  by (simp add: infill_dims_result cong: map_cong)

lemma choice_upt:
  assumes "valid_rng g" and "3 \<le> P"
  shows "np_random_choice [0..<P] 3 g = Inr (take 3 (shuffle g (cursor g) P), advance_rng 1 g)"
proof -
  have "map (\<lambda>p. [0..<P] ! p) (take 3 (shuffle g (cursor g) P)) = take 3 (shuffle g (cursor g) P)"
  proof (rule map_idI)
    fix p
    assume "p \<in> set (take 3 (shuffle g (cursor g) P))"
    then have "p \<in> set (shuffle g (cursor g) P)"
      by (rule in_set_takeD)
    with valid_rng_shuffle(2) [OF assms(1)] have "p < P"
      by simp
    then show "[0..<P] ! p = p"
      by simp
  qed
  with assms(2) show ?thesis
    by (simp add: np_random_choice_def)
qed

lemma infill_rows_result:
  assumes g: "valid_rng g" and P: "3 \<le> pop_size A" and N: "0 < n_var (problem A)"
  shows "infill_rows A Xm idx g =
           Inr (map (\<lambda>p. de_row A Xm g (cursor g + p * (n_var (problem A) + 2)) (idx ! p))
                  [0..<length idx],
                advance_rng (length idx * (n_var (problem A) + 2)) g)"
  using g
proof (induction idx arbitrary: g)
  case Nil
  show ?case by simp
next
  case (Cons i rest)
  let ?N = "n_var (problem A)"
  let ?g3 = "advance_rng (?N + 2) g"
  let ?f = "\<lambda>p. de_row A Xm g (cursor g + p * (?N + 2)) ((i # rest) ! p)"
  have v3: "valid_rng ?g3"
    using Cons.prems by simp
  have ih0: "infill_rows A Xm rest ?g3 =
           Inr (map (\<lambda>p. de_row A Xm ?g3 (cursor ?g3 + p * (?N + 2)) (rest ! p)) [0..<length rest],
                advance_rng (length rest * (?N + 2)) ?g3)"
    using v3 by (rule Cons.IH)
  have e1: "(\<lambda>p. de_row A Xm ?g3 (cursor ?g3 + p * (?N + 2)) (rest ! p)) = (\<lambda>p. ?f (Suc p))"
    by (rule ext) (simp add: algebra_simps)
  have e2: "advance_rng (length rest * (?N + 2)) ?g3 = advance_rng (Suc (length rest) * (?N + 2)) g"
    by (simp add: advance_rng_advance algebra_simps)
  have ih: "infill_rows A Xm rest ?g3 =
           Inr (map (\<lambda>p. ?f (Suc p)) [0..<length rest],
                advance_rng (Suc (length rest) * (?N + 2)) g)"
    using ih0 unfolding e1 e2 .
  have c: "np_random_choice [0..<pop_size A] 3 g
             = Inr (take 3 (shuffle g (cursor g) (pop_size A)), advance_rng 1 g)"
    using Cons.prems P by (rule choice_upt)
  have r: "np_random_randint ?N (advance_rng 1 g)
             = Inr (integer g (Suc (cursor g)) ?N, advance_rng 2 g)"
    using N by (simp add: np_random_randint_def advance_rng_advance)
  let ?abc = "take 3 (shuffle g (cursor g) (pop_size A))"
  let ?v = "vec_add (Xm ! (?abc ! 0))
                (vec_scale (F_factor A) (vec_sub (Xm ! (?abc ! 1)) (Xm ! (?abc ! 2))))"
  let ?j = "integer g (Suc (cursor g)) ?N"
  have f0: "?f 0 = map (\<lambda>k. if uniform g (cursor g + 2 + k) < CR A \<or> k = ?j
                              then ?v ! k else Xm ! i ! k) [0..<?N]"
    by (simp add: de_row_def Let_def)
  have d: "infill_dims (CR A) ?v (Xm ! i) ?j [0..<?N] (advance_rng 2 g) = (?f 0, ?g3)"
    unfolding f0 infill_dims_upt
    by (simp add: advance_rng_advance add.commute)
  have "infill_rows A Xm (i # rest) g =
          Inr (?f 0 # map (\<lambda>p. ?f (Suc p)) [0..<length rest],
               advance_rng (Suc (length rest) * (?N + 2)) g)"
    unfolding infill_rows.simps c Let_def sum.case prod.case r d ih ..
  also have "?f 0 # map (\<lambda>p. ?f (Suc p)) [0..<length rest] = map ?f [0..<Suc (length rest)]"
    by (rule map_upt_shift)
  finally show ?case
    by simp
qed

lemma list3: "length xs = 3 \<Longrightarrow> xs = [xs ! 0, xs ! 1, xs ! 2]"
  by (auto simp: list_eq_iff_nth_eq numeral_3_eq_3 less_Suc_eq numeral_2_eq_2)

lemma take3_shuffle:
  fixes t :: nat
  assumes g: "valid_rng g" and P: "3 \<le> P"
  defines "abc \<equiv> take 3 (shuffle g t P)"
  shows "distinct [abc ! 0, abc ! 1, abc ! 2]"
    and "abc ! 0 < P" and "abc ! 1 < P" and "abc ! 2 < P"
proof -
  note s = valid_rng_shuffle [OF g, of t P]
  have l: "length abc = 3"
    using s(3) P by (simp add: abc_def)
  then have eq: "abc = [abc ! 0, abc ! 1, abc ! 2]"
    by (rule list3)
  have "distinct abc"
    using s(1) by (simp add: abc_def)
  with eq show "distinct [abc ! 0, abc ! 1, abc ! 2]"
    by simp
  have "set abc \<subseteq> {..<P}"
    using s(2) set_take_subset [of 3 "shuffle g t P"] by (simp add: abc_def)
  moreover have "abc ! 0 \<in> set abc" "abc ! 1 \<in> set abc" "abc ! 2 \<in> set abc"
    using l by simp_all
  ultimately show "abc ! 0 < P" and "abc ! 1 < P" and "abc ! 2 < P"
    by blast+
qed

lemma MODE_infill_cells:
  assumes g: "valid_rng g" and wf: "MODE_rows A"
    and P: "3 \<le> pop_size A" and N: "0 < n_var (problem A)"
  obtains off where
    "MODE_infill A g = Inr (off, advance_rng (pop_size A * (n_var (problem A) + 2)) g)"
    and "length off = pop_size A"
    and "\<And>i. i < pop_size A \<Longrightarrow>
           X (off ! i) =
             clip_row (de_row A (map X (pop A)) g (cursor g + i * (n_var (problem A) + 2)) i)
               (xl (problem A)) (xu (problem A))"
proof -
  let ?P = "pop_size A" and ?N = "n_var (problem A)"
  let ?rows = "map (\<lambda>p. de_row A (map X (pop A)) g (cursor g + p * (?N + 2)) ([0..<?P] ! p)) [0..<?P]"
  let ?off = "Population_new (np_clip ?rows (xl (problem A)) (xu (problem A)))"
  have "infill_rows A (map X (pop A)) [0..<?P] g = Inr (?rows, advance_rng (?P * (?N + 2)) g)"
    using infill_rows_result [OF g P N, of "map X (pop A)" "[0..<?P]"] by simp
  then have inf: "MODE_infill A g = Inr (?off, advance_rng (?P * (?N + 2)) g)"
    by (simp add: MODE_infill_def Let_def)
  show thesis
  proof (rule that [of ?off])
    show "MODE_infill A g = Inr (?off, advance_rng (?P * (?N + 2)) g)"
      by (rule inf)
    show "length ?off = ?P"
      by (simp add: Population_new_def np_clip_def)
    show "X (?off ! i) = clip_row (de_row A (map X (pop A)) g (cursor g + i * (?N + 2)) i)
               (xl (problem A)) (xu (problem A))" if "i < ?P" for i
      using that by (simp add: Population_new_def np_clip_def)
  qed
qed

lemma length_de_row [simp]: "length (de_row A Xm g t i) = n_var (problem A)"
  by (simp add: de_row_def Let_def)

lemma nth_de_row:
  assumes "k < n_var (problem A)"
  shows "de_row A Xm g t i ! k =
     (let abc = take 3 (shuffle g t (pop_size A));
          v = vec_add (Xm ! (abc ! 0)) (vec_scale (F_factor A) (vec_sub (Xm ! (abc ! 1)) (Xm ! (abc ! 2))))
      in if uniform g (t + 2 + k) < CR A \<or> k = integer g (Suc t) (n_var (problem A))
         then v ! k else Xm ! i ! k)"
  using assms by (simp add: de_row_def Let_def)

lemma mode4_rows: "MODE_rows mode4"
  by (simp add: MODE_rows_def mode4_def small_MODE_def small_infills_def ThreeDProblem_def)

text \<open>Claim C2: for every population and every target \<open>i\<close>, \<^verbatim>\<open>MODE._infill\<close> takes
  three pairwise distinct indices \<open>a\<close>, \<open>b\<close>, \<open>c\<close> below \<open>pop_size\<close> from one draw without
  replacement (nothing removes \<open>i\<close> from the draw), forms the trial vector
  \<open>v = X[a] + F * (X[b] - X[c])\<close>, draws one dimension \<open>j\<close> below \<open>n_var\<close>, and gives
  dimension \<open>k\<close> of offspring \<open>i\<close> the value \<open>v[k]\<close> if \<open>k = j\<close> or the uniform draw made
  for this dimension is below \<open>CR\<close>, and \<open>X[i][k]\<close> otherwise; the value is then clipped
  into the bounds. The draws of target \<open>i\<close> start at offset \<open>i * (n_var + 2)\<close> of the
  stream.\<close>

theorem MODE_infill_offspring:
  assumes g: "valid_rng g" and wf: "MODE_rows A"
    and P: "3 \<le> pop_size A" and N: "0 < n_var (problem A)"
    and i: "i < pop_size A" and k: "k < n_var (problem A)"
  shows "\<exists>off g'. MODE_infill A g = Inr (off, g') \<and> length off = pop_size A \<and>
     (let t = cursor g + i * (n_var (problem A) + 2);
          abc = take 3 (shuffle g t (pop_size A));
          a = abc ! 0; b = abc ! 1; c = abc ! 2;
          j = integer g (t + 1) (n_var (problem A));
          u = uniform g (t + 2 + k);
          v = X (pop A ! a) ! k + F_factor A * (X (pop A ! b) ! k - X (pop A ! c) ! k)
      in distinct [a, b, c] \<and> a < pop_size A \<and> b < pop_size A \<and> c < pop_size A \<and>
         j < n_var (problem A) \<and> 0 \<le> u \<and> u < 1 \<and>
         X (off ! i) ! k =
           min (max (if u < CR A \<or> k = j then v else X (pop A ! i) ! k)
                    (xl (problem A) ! k))
               (xu (problem A) ! k))"
proof (rule MODE_infill_cells [OF g wf P N])
  fix off
  let ?P = "pop_size A" and ?N = "n_var (problem A)"
  let ?t = "cursor g + i * (?N + 2)"
  assume inf: "MODE_infill A g = Inr (off, advance_rng (?P * (?N + 2)) g)"
    and lo: "length off = ?P"
    and row: "\<And>i. i < ?P \<Longrightarrow>
           X (off ! i) = clip_row (de_row A (map X (pop A)) g (cursor g + i * (?N + 2)) i)
               (xl (problem A)) (xu (problem A))"
  define abc where "abc = take 3 (shuffle g ?t ?P)"
  note t3 = take3_shuffle [OF g P, of ?t, folded abc_def]
  from wf have sh: "length (pop A) = ?P"
    and b: "length (xl (problem A)) = ?N" "length (xu (problem A)) = ?N"
    and rows: "\<And>p. p < ?P \<Longrightarrow> length (X (pop A ! p)) = ?N"
    by (simp_all add: MODE_rows_def list_all_length)
  have vk: "vec_add (map X (pop A) ! (abc ! 0))
              (vec_scale (F_factor A) (vec_sub (map X (pop A) ! (abc ! 1)) (map X (pop A) ! (abc ! 2)))) ! k
            = X (pop A ! (abc ! 0)) ! k
              + F_factor A * (X (pop A ! (abc ! 1)) ! k - X (pop A ! (abc ! 2)) ! k)"
    using t3 sh k rows by (simp add: nth_vec_add nth_vec_scale nth_vec_sub)
  have dk: "de_row A (map X (pop A)) g ?t i ! k =
     (if uniform g (?t + 2 + k) < CR A \<or> k = integer g (Suc ?t) ?N
      then X (pop A ! (abc ! 0)) ! k
              + F_factor A * (X (pop A ! (abc ! 1)) ! k - X (pop A ! (abc ! 2)) ! k)
      else X (pop A ! i) ! k)"
    using i sh unfolding nth_de_row [OF k] Let_def abc_def [symmetric] vk by simp
  have xk: "X (off ! i) ! k =
           min (max (de_row A (map X (pop A)) g ?t i ! k) (xl (problem A) ! k)) (xu (problem A) ! k)"
    using k b by (simp add: row [OF i] nth_clip_row)
  note u = valid_rng_uniform [OF g, of "?t + 2 + k"]
  note j = valid_rng_integer [OF g N, of "Suc ?t"]
  show ?thesis
    unfolding Let_def abc_def [symmetric]
    using inf lo t3 u j xk dk by (intro exI [of _ off] exI [of _ "advance_rng (?P * (?N + 2)) g"]) simp
qed

theorem MODE_infill_offspring_witness:
  "valid_rng fixed_rng \<and> MODE_rows mode4 \<and> 3 \<le> pop_size mode4 \<and>
   0 < n_var (problem mode4) \<and> (3::nat) < pop_size mode4 \<and> (1::nat) < n_var (problem mode4) \<and>
   take 3 (shuffle fixed_rng (cursor fixed_rng + 3 * (n_var (problem mode4) + 2)) (pop_size mode4))
     = [3, 2, 1] \<and>
   (\<exists>off g'. MODE_infill mode4 fixed_rng = Inr (off, g') \<and> length off = 4 \<and>
      X (off ! 3) ! 1 = 1 / 2)"
proof -
  have p: "pop_size mode4 = 4" "n_var (problem mode4) = 3" "cursor fixed_rng = 0"
    by (simp_all add: mode4_def small_MODE_def ThreeDProblem_def fixed_rng_def)
  have h: "3 \<le> pop_size mode4" "0 < n_var (problem mode4)" "3 < pop_size mode4"
    "1 < n_var (problem mode4)"
    by (simp_all add: p)
  have s: "take 3 (shuffle fixed_rng 15 4) = [3, 2, 1]"
    by code_simp
  have j: "integer fixed_rng 16 3 = 1"
    by code_simp
  have u: "uniform fixed_rng 18 = 1 / 2"
    by (simp add: fixed_rng_def)
  have x: "X (pop mode4 ! 3) ! Suc 0 = 0" "X (pop mode4 ! 2) ! Suc 0 = 1"
    "X (pop mode4 ! Suc 0) ! Suc 0 = 0"
    "F_factor mode4 = 1 / 2" "xl (problem mode4) ! Suc 0 = -5" "xu (problem mode4) ! Suc 0 = 5"
    by (simp_all add: mode4_def small_MODE_def small_infills_def ThreeDProblem_def)
  from MODE_infill_offspring [OF valid_fixed_rng mode4_rows h]
  obtain off g' where "MODE_infill mode4 fixed_rng = Inr (off, g')" and "length off = 4"
    and "X (off ! 3) ! 1 = 1 / 2"
    unfolding Let_def p by (auto simp: s j u x)
  with valid_fixed_rng mode4_rows h s show ?thesis
    by (auto simp: p)
qed

section \<open>Offspring stay within the bounds\<close>

text \<open>Claim C6: after the variation step of either algorithm (the velocity update of
  MOPSO, the mutation and crossover of MODE), every offspring has \<open>n_var\<close> coordinates
  and each lies within \<open>[xl, xu]\<close> of its dimension, for bounds with \<open>xl \<le> xu\<close>; the
  step returns the offspring normally, a coordinate outside the bounds being clipped and
  never raised as an error.\<close>

theorem offspring_in_bounds:
  assumes g: "valid_rng g"
    and A: "MOPSO_rows A" "ordered_bounds (problem A)"
    and B: "MODE_rows B" "ordered_bounds (problem B)" "3 \<le> pop_size B" "0 < n_var (problem B)"
  shows "(case MOPSO_infill A g of
            ((off, A'), g') \<Rightarrow> length off = pop_size A \<and> in_bounds (problem A) off) \<and>
         (\<exists>off g'. MODE_infill B g = Inr (off, g') \<and> length off = pop_size B \<and>
            in_bounds (problem B) off)"
proof
  show "case MOPSO_infill A g of
            ((off, A'), g') \<Rightarrow> length off = pop_size A \<and> in_bounds (problem A) off"
  proof (rule MOPSO_infill_cells [OF A(1), of g])
    fix off vel
    assume inf: "MOPSO_infill A g =
       ((off, A\<lparr>velocities := vel\<rparr>), advance_rng (2 * pop_size A * n_var (problem A)) g)"
      and lo: "length off = pop_size A"
      and len: "\<And>i. i < pop_size A \<Longrightarrow>
           length (vel ! i) = n_var (problem A) \<and> length (X (off ! i)) = n_var (problem A)"
      and x: "\<And>i k. i < pop_size A \<Longrightarrow> k < n_var (problem A) \<Longrightarrow>
           X (off ! i) ! k =
             min (max (X (pop A ! i) ! k + vel ! i ! k) (xl (problem A) ! k)) (xu (problem A) ! k)"
    have "in_bounds (problem A) off"
    proof (rule in_boundsI)
      fix i
      assume "i < length off"
      with lo len show "length (X (off ! i)) = n_var (problem A)"
        by simp
    next
      fix i k
      assume "i < length off" and k: "k < n_var (problem A)"
      with lo have i: "i < pop_size A"
        by simp
      from A(2) k have "xl (problem A) ! k \<le> xu (problem A) ! k"
        by (rule ordered_boundsD)
      then show "xl (problem A) ! k \<le> X (off ! i) ! k \<and> X (off ! i) ! k \<le> xu (problem A) ! k"
        unfolding x [OF i k] by (rule clip_within)
    qed
    with lo show ?thesis
      unfolding inf by simp
  qed
next
  show "\<exists>off g'. MODE_infill B g = Inr (off, g') \<and> length off = pop_size B \<and>
            in_bounds (problem B) off"
  proof (rule MODE_infill_cells [OF g B(1) B(3) B(4)])
    fix off
    let ?N = "n_var (problem B)"
    assume inf: "MODE_infill B g = Inr (off, advance_rng (pop_size B * (?N + 2)) g)"
      and lo: "length off = pop_size B"
      and row: "\<And>i. i < pop_size B \<Longrightarrow>
           X (off ! i) = clip_row (de_row B (map X (pop B)) g (cursor g + i * (?N + 2)) i)
               (xl (problem B)) (xu (problem B))"
    from B(1) have b: "length (xl (problem B)) = ?N" "length (xu (problem B)) = ?N"
      by (simp_all add: MODE_rows_def)
    have "in_bounds (problem B) off"
    proof (rule in_boundsI)
      fix i
      assume "i < length off"
      with lo b show "length (X (off ! i)) = ?N"
        by (simp add: row)
    next
      fix i k
      assume "i < length off" and k: "k < ?N"
      with lo have i: "i < pop_size B"
        by simp
      from B(2) k have "xl (problem B) ! k \<le> xu (problem B) ! k"
        by (rule ordered_boundsD)
      then have "xl (problem B) ! k
                   \<le> min (max (de_row B (map X (pop B)) g (cursor g + i * (?N + 2)) i ! k)
                             (xl (problem B) ! k)) (xu (problem B) ! k) \<and>
                 min (max (de_row B (map X (pop B)) g (cursor g + i * (?N + 2)) i ! k)
                             (xl (problem B) ! k)) (xu (problem B) ! k)
                   \<le> xu (problem B) ! k"
        by (rule clip_within)
      then show "xl (problem B) ! k \<le> X (off ! i) ! k \<and> X (off ! i) ! k \<le> xu (problem B) ! k"
        using k b by (simp add: row [OF i] nth_clip_row)
    qed
    with inf lo show ?thesis
      by blast
  qed
qed

theorem offspring_in_bounds_witness:
  "valid_rng fixed_rng \<and> MOPSO_rows swarm1 \<and> ordered_bounds (problem swarm1) \<and>
   MODE_rows mode4 \<and> ordered_bounds (problem mode4) \<and> 3 \<le> pop_size mode4 \<and>
   0 < n_var (problem mode4) \<and>
   (case MOPSO_infill swarm1 fixed_rng of
      ((off, A'), g') \<Rightarrow> length off = 2 \<and> in_bounds ThreeDProblem off) \<and>
   (\<exists>off g'. MODE_infill mode4 fixed_rng = Inr (off, g') \<and> length off = 4 \<and>
      in_bounds ThreeDProblem off)"
proof -
  have p: "problem swarm1 = ThreeDProblem" "problem mode4 = ThreeDProblem"
    "pop_size swarm1 = 2" "pop_size mode4 = 4"
    by (simp_all add: swarm1_def swarm0_def mode4_def small_MODE_def)
  have h: "ordered_bounds (problem swarm1)" "ordered_bounds (problem mode4)"
    "3 \<le> pop_size mode4" "0 < n_var (problem mode4)"
    using ThreeDProblem_ordered by (simp_all add: p ThreeDProblem_def)
  from offspring_in_bounds [OF valid_fixed_rng swarm1_rows h(1) mode4_rows h(2) h(3) h(4)]
  show ?thesis
    using valid_fixed_rng swarm1_rows mode4_rows h by (simp add: p)
qed

section \<open>The shapes are kept from generation to generation\<close>

text \<open>The theorems above assume well-shaped states. The first generation of MOPSO
  produces one, and a generation of either algorithm keeps the shapes; in MODE the pool
  handed to the selection has twice \<open>pop_size\<close> members, so the selection always fills the
  population.\<close>

lemma MOPSO_first_rows:
  assumes g: "valid_rng g" and n: "0 < pop_size A"
    and b: "length (xl (problem A)) = n_var (problem A)" "length (xu (problem A)) = n_var (problem A)"
  shows "\<exists>A' g'. MOPSO_first A g = Inr (A', g') \<and> MOPSO_rows A' \<and>
           pop_size A' = pop_size A \<and> problem A' = problem A"
proof -
  let ?P = "pop_size A" and ?N = "n_var (problem A)"
  obtain Xm g1 where u: "np_random_uniform (xl (problem A)) (xu (problem A)) (?P, ?N) g = (Xm, g1)"
    by (metis surj_pair)
  then have lx: "length Xm = ?P" and rows: "list_all (\<lambda>row. length row = ?N) Xm"
    and g1: "g1 = advance_rng (?P * ?N) g"
    by (auto simp: np_random_uniform_def list_all_length)
  let ?inf = "evaluate_pop (problem A) (Population_new Xm)"
  have li: "length ?inf = ?P" and xi: "list_all (\<lambda>ind. length (X ind) = ?N) ?inf"
    using lx rows by (simp_all add: evaluate_pop_def Population_new_def list_all_length)
  let ?r = "integer g1 (cursor g1) ?P"
  have v1: "valid_rng g1"
    using g by (simp add: g1)
  then have r: "?r < ?P"
    using n by (rule valid_rng_integer)
  let ?A' = "A\<lparr>pop := ?inf, velocities := np_zeros (?P, ?N), pbest := ?inf, gbest := ?inf ! ?r\<rparr>"
  have "MOPSO_first A g = Inr (?A', advance_rng 1 g1)"
    using u n r li
    by (simp add: MOPSO_first_def MOPSO_initialize_infill_def MOPSO_initialize_advance_def
        np_random_randint_def)
  moreover have "MOPSO_rows ?A'"
    using li xi r b
    by (simp add: MOPSO_rows_def MOPSO_shape_def np_zeros_def list_all_length)
  ultimately show ?thesis
    by simp
qed

lemma MOPSO_next_rows:
  assumes g: "valid_rng g" and wf: "MOPSO_rows A"
  shows "\<exists>A' g'. MOPSO_next A g = Inr (A', g') \<and> valid_rng g' \<and> MOPSO_rows A' \<and>
           pop_size A' = pop_size A \<and> problem A' = problem A"
proof (rule MOPSO_infill_cells [OF wf, of g])
  fix off vel
  let ?P = "pop_size A" and ?N = "n_var (problem A)"
  let ?A1 = "A\<lparr>velocities := vel\<rparr>"
  let ?g1 = "advance_rng (2 * ?P * ?N) g"
  let ?inf = "evaluate_pop (problem A) off"
  assume inf: "MOPSO_infill A g = ((off, ?A1), ?g1)"
    and lo: "length off = ?P" and lv: "length vel = ?P"
    and len: "\<And>i. i < ?P \<Longrightarrow> length (vel ! i) = ?N \<and> length (X (off ! i)) = ?N"
  from wf have lp: "length (pbest A) = ?P"
    and xp: "list_all (\<lambda>ind. length (X ind) = ?N) (pbest A)"
    and gb: "length (X (gbest A)) = ?N"
    and b: "length (xl (problem A)) = ?N" "length (xu (problem A)) = ?N"
    by (simp_all add: MOPSO_rows_def MOPSO_shape_def)
  have li: "length ?inf = ?P" and xi: "\<And>i. i < ?P \<Longrightarrow> length (X (?inf ! i)) = ?N"
    using lo len by (simp_all add: evaluate_pop_def)
  have a: "pop_size ?A1 \<le> length ?inf" "pop_size ?A1 \<le> length (pbest ?A1)"
    using li lp by simp_all
  from update_pbest_range [OF a] obtain pb where
    r: "update_pbest ?inf (pbest ?A1) [0..<pop_size ?A1] = Inr pb"
    and l: "length pb = ?P"
    and v: "\<forall>i<?P. pb ! i =
              (if dominate (?inf ! i) (pbest A ! i) then ?inf ! i else pbest A ! i)"
    using lp by auto
  have xpb: "length (X q) = ?N" if "q \<in> set pb" for q
  proof -
    from that l obtain i where i: "i < ?P" "q = pb ! i"
      by (auto simp: in_set_conv_nth)
    with xp lp have "length (X (pbest A ! i)) = ?N"
      by (simp add: list_all_length)
    with v i xi [OF i(1)] show ?thesis
      by simp
  qed
  let ?nd = "non_dominated pb"
  let ?gb = "?nd ! integer ?g1 (cursor ?g1) (length ?nd)"
  have v1: "valid_rng ?g1"
    using g by simp
  have step: "MOPSO_next A g = MOPSO_advance ?A1 ?inf ?g1"
    by (simp add: MOPSO_next_def inf)
  have shape: "MOPSO_rows (?A1\<lparr>pop := ?inf, pbest := pb, gbest := q\<rparr>)" if "length (X q) = ?N" for q
    using that li lv l xi len xpb b
    by (simp add: MOPSO_rows_def MOPSO_shape_def list_all_length)
  show ?thesis
  proof (cases "?nd = []")
    case True
    have "?A1\<lparr>pop := ?inf, pbest := pb\<rparr> = ?A1\<lparr>pop := ?inf, pbest := pb, gbest := gbest A\<rparr>"
      by simp
    with shape [OF gb] have "MOPSO_rows (?A1\<lparr>pop := ?inf, pbest := pb\<rparr>)"
      by simp
    with MOPSO_advance_Inr [OF r, of ?g1] True v1 show ?thesis
      unfolding step by simp
  next
    case False
    then have "integer ?g1 (cursor ?g1) (length ?nd) < length ?nd"
      using v1 by (intro valid_rng_integer) simp_all
    then have "?gb \<in> set ?nd"
      by simp
    then have "?gb \<in> set pb"
      by (rule non_dominated_member(1))
    then have "length (X ?gb) = ?N"
      by (rule xpb)
    from shape [OF this] MOPSO_advance_Inr [OF r, of ?g1] False v1 show ?thesis
      unfolding step by simp
  qed
qed

lemma MOPSO_run_rows:
  assumes "valid_rng g" and "MOPSO_rows A"
  shows "\<exists>tr g'. MOPSO_run n A g = Inr (tr, g') \<and> list_all MOPSO_rows tr"
  using assms
proof (induction n arbitrary: A g)
  case 0
  then show ?case by simp
next
  case (Suc n)
  from MOPSO_next_rows [OF Suc.prems] obtain A1 g1 where
    nx: "MOPSO_next A g = Inr (A1, g1)" and v: "valid_rng g1" and wf: "MOPSO_rows A1"
    by blast
  from Suc.IH [OF v wf] obtain tr g2 where "MOPSO_run n A1 g1 = Inr (tr, g2)"
    and "list_all MOPSO_rows tr"
    by blast
  with nx Suc.prems(2) show ?case
    by simp
qed

lemma MODE_next_rows:
  assumes g: "valid_rng g" and wf: "MODE_rows A"
    and P: "3 \<le> pop_size A" and N: "0 < n_var (problem A)"
  shows "\<exists>A' g'. MODE_next A g = Inr (A', g') \<and> valid_rng g' \<and> MODE_rows A' \<and>
           pop_size A' = pop_size A \<and> problem A' = problem A"
proof (rule MODE_infill_cells [OF g wf P N])
  fix off
  let ?P = "pop_size A" and ?N = "n_var (problem A)"
  let ?g1 = "advance_rng (?P * (?N + 2)) g"
  let ?inf = "evaluate_pop (problem A) off"
  let ?pool = "Population_merge (pop A) ?inf"
  let ?fronts = "NonDominatedSorting_do (map F ?pool)"
  assume inf: "MODE_infill A g = Inr (off, ?g1)"
    and lo: "length off = ?P"
    and row: "\<And>i. i < ?P \<Longrightarrow>
           X (off ! i) = clip_row (de_row A (map X (pop A)) g (cursor g + i * (?N + 2)) i)
               (xl (problem A)) (xu (problem A))"
  from wf have lp: "length (pop A) = ?P"
    and xp: "\<And>i. i < ?P \<Longrightarrow> length (X (pop A ! i)) = ?N"
    and b: "length (xl (problem A)) = ?N" "length (xu (problem A)) = ?N"
    by (simp_all add: MODE_rows_def list_all_length)
  have xo: "length (X (?inf ! i)) = ?N" if "i < ?P" for i
    using that lo b by (simp add: evaluate_pop_def row)
  have lpool: "length ?pool = 2 * ?P"
    using lp lo by (simp add: Population_merge_def evaluate_pop_def)
  have xpool: "length (X (?pool ! i)) = ?N" if "i < 2 * ?P" for i
  proof (cases "i < ?P")
    case True
    with lp xp show ?thesis
      by (simp add: Population_merge_def nth_append)
  next
    case False
    with that have "i - ?P < ?P"
      by simp
    from xo [OF this] False lp show ?thesis
      by (simp add: Population_merge_def nth_append)
  qed
  have v1: "valid_rng ?g1"
    using g by simp
  have part: "distinct (concat ?fronts)" "set (concat ?fronts) = {..<length ?pool}"
    using NonDominatedSorting_do_partition [of "map F ?pool"] by simp_all
  have "length (concat ?fronts) = length ?pool"
    using length_concat_NonDominatedSorting_do [of "map F ?pool"] by simp
  with lpool have "?P \<le> length (concat ?fronts)"
    by simp
  from select_fronts_selection [OF v1 part(1) this] obtain m sel g' where
    r: "select_fronts ?P ?fronts [] ?g1 = Inr (concat (take m ?fronts) @ sel, g')"
    and v': "valid_rng g'"
    and le: "length (concat (take m ?fronts)) \<le> ?P"
    and ls: "length sel = ?P - length (concat (take m ?fronts))"
    and sub: "set (concat (take m ?fronts) @ sel) \<subseteq> set (concat ?fronts)"
    by blast
  let ?next = "concat (take m ?fronts) @ sel"
  from sub part(2) have inb: "set ?next \<subseteq> {..<length ?pool}"
    by simp
  then have "Population_index ?pool ?next = Inr (map (\<lambda>i. ?pool ! i) ?next)"
    by (rule Population_index_Inr)
  with r have res: "MODE_advance A ?inf ?g1 = Inr (A\<lparr>pop := map (\<lambda>i. ?pool ! i) ?next\<rparr>, g')"
    by (simp add: MODE_advance_def Let_def)
  have ln: "length ?next = ?P"
    using ls le by simp
  have "length (X (map (\<lambda>i. ?pool ! i) ?next ! p)) = ?N" if "p < ?P" for p
  proof -
    from that ln have "?next ! p \<in> set ?next"
      by (metis nth_mem)
    with inb lpool have "?next ! p < 2 * ?P"
      by auto
    then have x: "length (X (?pool ! (?next ! p))) = ?N"
      by (rule xpool)
    from that ln have "p < length ?next"
      by simp
    then have "map (\<lambda>i. ?pool ! i) ?next ! p = ?pool ! (?next ! p)"
      by (rule nth_map)
    with x show ?thesis
      by (simp only:)
  qed
  with ln b have "MODE_rows (A\<lparr>pop := map (\<lambda>i. ?pool ! i) ?next\<rparr>)"
    by (simp add: MODE_rows_def list_all_length)
  moreover have "MODE_next A g = Inr (A\<lparr>pop := map (\<lambda>i. ?pool ! i) ?next\<rparr>, g')"
    unfolding MODE_next_def inf sum.case prod.case by (rule res)
  ultimately show ?thesis
    using v' by simp
qed

end
